theory Spec2Isabelle
  imports Main "HOL-Library.Word"
begin

unbundle bit_operations_syntax

section \<open>The SPSC queue (queue.h)\<close>

text \<open>
  \<^verbatim>\<open>typedef struct { size_t head, tail; } Queue;\<close>
  The two counters are \<^verbatim>\<open>size_t\<close> values; the model is polymorphic in their width
  \<open>LENGTH('a)\<close>, so \<open>+\<close>, \<open>-\<close> and \<open>*\<close> wrap modulo \<open>2 ^ LENGTH('a)\<close> as in C.
  The capacity exponent \<^verbatim>\<open>cap_lg2\<close> (an \<^verbatim>\<open>unsigned char\<close>) is a natural number;
  \<^verbatim>\<open>(size_t)1 << cap_lg2\<close> is defined in C only for \<open>cap_lg2 < LENGTH('a)\<close>, and the
  theorems below assume exactly that.  The atomic loads and stores are plain reads
  and writes: each function is modelled on the snapshot of the queue it observes.
\<close>

record (overloaded) 'a Queue =
  head :: "'a word"
  tail :: "'a word"

text \<open>\<^verbatim>\<open>queue_pop\<close> returns the index and writes \<^verbatim>\<open>*count\<close>: the model returns the pair
  \<open>(index, count)\<close>.\<close>

definition queue_pop :: "'a::len Queue \<Rightarrow> nat \<Rightarrow> 'a word \<times> 'a word" where
  "queue_pop q cap_lg2 =
     (let tail = Queue.tail q;
          mask = push_bit cap_lg2 1 - 1;
          cond = (drop_bit cap_lg2 tail - drop_bit cap_lg2 (Queue.head q)) AND 1;
          count = tail - Queue.head q - (tail AND mask) * cond
      in (Queue.head q AND mask, count))"

definition queue_commit_pop :: "'a::len Queue \<Rightarrow> 'a word \<Rightarrow> 'a Queue" where
  "queue_commit_pop q count = q\<lparr>head := Queue.head q + count\<rparr>"

definition queue_push :: "'a::len Queue \<Rightarrow> nat \<Rightarrow> 'a word \<times> 'a word" where
  "queue_push q cap_lg2 =
     (let head = Queue.head q;
          mask = push_bit cap_lg2 1 - 1;
          cond = (drop_bit cap_lg2 (Queue.tail q) - drop_bit cap_lg2 head) AND 1;
          count = mask + 1 - (Queue.tail q - head) - (head AND mask) * (1 - cond)
      in (Queue.tail q AND mask, count))"

definition queue_commit_push :: "'a::len Queue \<Rightarrow> 'a word \<Rightarrow> 'a Queue" where
  "queue_commit_push q count = q\<lparr>tail := Queue.tail q + count\<rparr>"

section \<open>The broadcast queue (broadcast.h)\<close>

subsection \<open>Types of the wide variant\<close>

text \<open>
  The wide variant is the one compiled when a lock-free 64-bit atomic exists:
  \<^verbatim>\<open>brdct_t\<close> is \<^verbatim>\<open>uint_fast64_t\<close>, \<^verbatim>\<open>Reader\<close> is \<^verbatim>\<open>uint32_t\<close>, and \<^verbatim>\<open>size_t\<close> has 64 bits.
  The state word is a struct of four bit-fields; each field is a word of its own
  width, so that an assignment to a field wraps inside the field and never carries
  into a neighbour, as a C bit-field assignment does.  A bit-field read in an
  expression is converted to \<^verbatim>\<open>brdct_t\<close> (\<open>ucast\<close>) before the arithmetic, which is
  what the usual arithmetic conversions do whenever the other operand is a
  \<^verbatim>\<open>brdct_t\<close> or a \<^verbatim>\<open>size_t\<close>; the comparisons of two bit-fields compare their values.
\<close>

type_synonym brdct_t = "64 word"
type_synonym Reader = "32 word"
type_synonym size_t = "64 word"

record Broadcast =
  tail :: "33 word"
  nreaders :: "15 word"
  ncycled :: "15 word"
  hstate :: "1 word"

text \<open>\<^verbatim>\<open>typedef struct { size_t idx[2]; size_t cnt[2]; size_t len; } Slice;\<close>
  The two-element arrays are written out as two fields each.\<close>

record Slice =
  idx0 :: size_t
  idx1 :: size_t
  cnt0 :: size_t
  cnt1 :: size_t
  len :: size_t

text \<open>\<^verbatim>\<open>Broadcast q = {0};\<close>\<close>

definition brdct_zero :: Broadcast where
  "brdct_zero = \<lparr>tail = 0, nreaders = 0, ncycled = 0, hstate = 0\<rparr>"

text \<open>The constant \<^verbatim>\<open>((1 << 15) - 1) >> BRDCT_RESIZE\<close> of \<^verbatim>\<open>brdct_attach_reader\<close>, an
  \<^verbatim>\<open>int\<close>; \<^verbatim>\<open>BRDCT_RESIZE\<close> is 0 in the wide variant and 1 in the narrow one.\<close>

definition nreaders_limit :: "nat \<Rightarrow> int" where
  "nreaders_limit resize = drop_bit resize (push_bit 15 1 - 1)"

subsection \<open>Operations of the wide variant\<close>

text \<open>
  Every compare-and-swap loop reads the state word, computes the new word and
  installs it atomically; a failed exchange only repeats the body on the word just
  observed.  One call is therefore one atomic step on the word it finally succeeds
  on, and that step is what each definition computes.  A function that writes
  through \<^verbatim>\<open>Reader *r\<close> or \<^verbatim>\<open>Broadcast *brc\<close> returns the new values.

  Where the model is the code.  \<open>push_bit\<close> and \<open>drop_bit\<close> are total, while C defines
  \<^verbatim>\<open>x << n\<close> and \<^verbatim>\<open>x >> n\<close> only for \<open>0 \<le> n\<close> below the width of \<open>x\<close>.  The shifts of
  the 32-bit \<^verbatim>\<open>Reader\<close> by \<^verbatim>\<open>caplg2 - 1\<close> in \<^verbatim>\<open>brdct_detach_reader\<close> and
  \<^verbatim>\<open>brdct_reader_commit\<close> are therefore the code's for \<open>1 \<le> caplg2 \<le> 32\<close> only, and
  the shift by \<^verbatim>\<open>caplg2\<close> in \<^verbatim>\<open>brdct_reader_slice\<close> for \<open>caplg2 \<le> 31\<close> only; the shifts of
  \<^verbatim>\<open>brdct_t\<close> values and of \<open>tail\<close> in \<^verbatim>\<open>brdct_attach_reader\<close>, \<^verbatim>\<open>brdct_writer_slice\<close>
  and \<^verbatim>\<open>brdct_writer_commit\<close> for \<open>1 \<le> caplg2 \<le> 33\<close>, the largest exponent the header
  names (\<^verbatim>\<open>BRDCT_MAX_CAPLG2\<close>).  Outside these ranges the C is undefined and the
  definitions say nothing about it; a theorem whose conclusion depends on such a
  shift assumes the range, or evaluates the function at an exponent inside it.
  \<^verbatim>\<open>curr.tail - *r\<close> in \<^verbatim>\<open>brdct_reader_slice\<close> is taken in
  \<^verbatim>\<open>brdct_t\<close>, modulo \<open>2 ^ 64\<close>; a compiler that gives the bit-field a type of its own
  width takes it modulo \<open>2 ^ 33\<close>.  The two agree whenever \<open>*r \<le> tail\<close>, which holds
  at every input the theorems about \<^verbatim>\<open>brdct_reader_slice\<close> evaluate or assume.
\<close>

text \<open>Returns \<open>(result, state word, *r)\<close>; the result is \<open>- 1\<close> or \<open>0\<close>.\<close>

definition brdct_attach_reader :: "Broadcast \<Rightarrow> nat \<Rightarrow> Reader \<Rightarrow> int \<times> Broadcast \<times> Reader" where
  "brdct_attach_reader brc caplg2 r =
     (if uint (nreaders brc) = nreaders_limit 0 then (- 1, brc, r)
      else
        let new = brc\<lparr>nreaders := nreaders brc + 1\<rparr>;
            halflen = (push_bit (caplg2 - 1) 1 :: brdct_t)
        in (0, new, ucast ((ucast (tail new) AND - halflen) - halflen * ucast (hstate new))))"

definition brdct_detach_reader :: "Broadcast \<Rightarrow> nat \<Rightarrow> Reader \<Rightarrow> Broadcast" where
  "brdct_detach_reader brc caplg2 r =
     (let new = brc\<lparr>nreaders := nreaders brc - 1\<rparr>
      in if hstate new \<noteq> 0 \<and>
            drop_bit (caplg2 - 1) (ucast (tail new) :: brdct_t) = ucast (drop_bit (caplg2 - 1) r)
         then new\<lparr>ncycled := ncycled new - 1\<rparr>
         else new)"

definition brdct_reader_slice :: "Broadcast \<Rightarrow> nat \<Rightarrow> Reader \<Rightarrow> Slice" where
  "brdct_reader_slice brc caplg2 r =
     (let mask = (push_bit caplg2 1 - 1 :: brdct_t);
          s = \<lparr>idx0 = ucast r AND mask, idx1 = 0,
               cnt0 = ucast (tail brc) - ucast r, cnt1 = 0, len = 0\<rparr>;
          s = (if drop_bit caplg2 (ucast (tail brc) :: brdct_t) \<noteq> ucast (drop_bit caplg2 r)
               then s\<lparr>cnt0 := cnt0 s - (ucast (tail brc) AND mask),
                      cnt1 := ucast (tail brc) AND mask\<rparr>
               else s)
      in s\<lparr>len := cnt0 s + cnt1 s\<rparr>)"

text \<open>Returns \<open>(state word, *r)\<close>.  \<^verbatim>\<open>*r += count\<close> adds in \<^verbatim>\<open>size_t\<close> and truncates to
  \<^verbatim>\<open>Reader\<close>.\<close>

definition brdct_reader_commit :: "Broadcast \<Rightarrow> nat \<Rightarrow> Reader \<Rightarrow> Slice \<Rightarrow> Broadcast \<times> Reader" where
  "brdct_reader_commit brc caplg2 r s =
     (let count = len s - (cnt0 s + cnt1 s);
          prev = r;
          r = (ucast ((ucast r :: size_t) + count) :: Reader)
      in if drop_bit (caplg2 - 1) r = drop_bit (caplg2 - 1) prev then (brc, r)
         else (brc\<lparr>ncycled := ncycled brc + 1\<rparr>, r))"

text \<open>Returns \<open>(state word, slice)\<close>.\<close>

definition brdct_writer_slice :: "Broadcast \<Rightarrow> nat \<Rightarrow> Broadcast \<times> Slice" where
  "brdct_writer_slice brc caplg2 =
     (let new = (if nreaders brc = 0 \<or> ncycled brc < nreaders brc then brc
                 else brc\<lparr>ncycled := 0, hstate := 0\<rparr>);
          halflen = (push_bit (caplg2 - 1) 1 :: brdct_t);
          head = (ucast (tail new) AND - halflen) - halflen * ucast (hstate new);
          mask = (push_bit caplg2 1 - 1 :: brdct_t);
          s = \<lparr>idx0 = ucast (tail new) AND mask, idx1 = 0,
               cnt0 = mask + 1 - (ucast (tail new) - head), cnt1 = 0, len = 0\<rparr>;
          s = (if drop_bit caplg2 (ucast (tail new) :: brdct_t) = drop_bit caplg2 head
               then s\<lparr>cnt0 := cnt0 s - (head AND mask), cnt1 := head AND mask\<rparr>
               else s);
          s = s\<lparr>len := cnt0 s + cnt1 s\<rparr>;
          s = (if ucast (tail new) + len s - head = push_bit caplg2 1
               then (let s = s\<lparr>len := len s - 1\<rparr>
                     in if cnt1 s > 0 then s\<lparr>cnt1 := cnt1 s - 1\<rparr>
                        else if cnt0 s > 0 then s\<lparr>cnt0 := cnt0 s - 1\<rparr>
                        else s)
               else s)
      in (new, s))"

text \<open>\<^verbatim>\<open>new.tail += count\<close> adds in \<^verbatim>\<open>size_t\<close> and truncates to the 33 bits of the field.\<close>

definition brdct_writer_commit :: "Broadcast \<Rightarrow> nat \<Rightarrow> Slice \<Rightarrow> Broadcast" where
  "brdct_writer_commit brc caplg2 s =
     (let count = len s - (cnt0 s + cnt1 s);
          new = brc\<lparr>tail := ucast ((ucast (tail brc) :: size_t) + count)\<rparr>
      in if drop_bit (caplg2 - 1) (tail new) \<noteq> drop_bit (caplg2 - 1) (tail brc)
         then new\<lparr>hstate := 1\<rparr>
         else new)"

subsection \<open>The narrow variant of \<^verbatim>\<open>brdct_attach_reader\<close>\<close>

text \<open>
  Without a lock-free 64-bit atomic the header sets \<^verbatim>\<open>BRDCT_RESIZE\<close> to 1:
  \<^verbatim>\<open>brdct_t\<close> is \<^verbatim>\<open>uint_fast32_t\<close> (32 bits here), \<^verbatim>\<open>Reader\<close> is \<^verbatim>\<open>uint16_t\<close>, and the
  fields are \<^verbatim>\<open>tail : (33 >> 1) + 1\<close>, that is 17 bits, and
  \<^verbatim>\<open>nreaders, ncycled : 15 >> 1\<close>, that is 7 bits each.  The function body is the same
  text; only the types and the value of \<^verbatim>\<open>BRDCT_RESIZE\<close> differ.
\<close>

record Broadcast_narrow =
  tail_n :: "17 word"
  nreaders_n :: "7 word"
  ncycled_n :: "7 word"
  hstate_n :: "1 word"

definition brdct_attach_reader_narrow ::
  "Broadcast_narrow \<Rightarrow> nat \<Rightarrow> 16 word \<Rightarrow> int \<times> Broadcast_narrow \<times> 16 word" where
  "brdct_attach_reader_narrow brc caplg2 r =
     (if uint (nreaders_n brc) = nreaders_limit 1 then (- 1, brc, r)
      else
        let new = brc\<lparr>nreaders_n := nreaders_n brc + 1\<rparr>;
            halflen = (push_bit (caplg2 - 1) 1 :: 32 word)
        in (0, new, ucast ((ucast (tail_n new) AND - halflen) - halflen * ucast (hstate_n new))))"

subsection \<open>Sequences of operations\<close>

text \<open>
  The claims about reachable states speak of sequences of calls made by one writer
  and any number of readers, as \<^verbatim>\<open>test.c\<close> makes them: a reader attaches, then
  repeatedly takes a slice, lowers \<^verbatim>\<open>cnt[0]\<close> and \<^verbatim>\<open>cnt[1]\<close> by what it consumed and
  commits, and finally detaches; the writer alternates \<^verbatim>\<open>brdct_writer_slice\<close> and
  \<^verbatim>\<open>brdct_writer_commit\<close> in the same way.  A system state holds the shared state
  word, for every reader ever attached its \<^verbatim>\<open>Reader\<close> counter and the slice it has not
  committed yet (\<open>None\<close> once detached), and the writer's uncommitted slice.  A call
  that breaks the contract (a commit without a slice, a commit of more than
  \<^verbatim>\<open>len\<close>, any call on a detached reader) has no successor state.
\<close>

datatype brdct_op =
    Attach
  | Detach nat
  | ReaderSlice nat
  | ReaderCommit nat size_t
  | WriterSlice
  | WriterCommit size_t

record system =
  shared :: Broadcast
  readers :: "(Reader \<times> Slice option) option list"
  wslice :: "Slice option"

text \<open>The caller reports \<open>n\<close> processed elements by lowering \<^verbatim>\<open>cnt[0]\<close> first and
  \<^verbatim>\<open>cnt[1]\<close> by the rest.\<close>

definition consume :: "size_t \<Rightarrow> Slice \<Rightarrow> Slice" where
  "consume n s =
     (let m = min n (cnt0 s)
      in s\<lparr>cnt0 := cnt0 s - m, cnt1 := cnt1 s - (n - m)\<rparr>)"

definition reader_at :: "system \<Rightarrow> nat \<Rightarrow> (Reader \<times> Slice option) option" where
  "reader_at sys i = (if i < length (readers sys) then readers sys ! i else None)"

fun step :: "nat \<Rightarrow> brdct_op \<Rightarrow> system \<Rightarrow> system option" where
  "step k Attach sys =
     (case brdct_attach_reader (shared sys) k 0 of
        (res, b, r) \<Rightarrow>
          if res = 0 then Some (sys\<lparr>shared := b, readers := readers sys @ [Some (r, None)]\<rparr>)
          else Some sys)"
| "step k (Detach i) sys =
     (case reader_at sys i of
        Some (r, _) \<Rightarrow>
          Some (sys\<lparr>shared := brdct_detach_reader (shared sys) k r,
                    readers := (readers sys)[i := None]\<rparr>)
      | None \<Rightarrow> None)"
| "step k (ReaderSlice i) sys =
     (case reader_at sys i of
        Some (r, _) \<Rightarrow>
          Some (sys\<lparr>readers :=
                      (readers sys)[i := Some (r, Some (brdct_reader_slice (shared sys) k r))]\<rparr>)
      | None \<Rightarrow> None)"
| "step k (ReaderCommit i n) sys =
     (case reader_at sys i of
        Some (r, Some s) \<Rightarrow>
          if n \<le> len s
          then (case brdct_reader_commit (shared sys) k r (consume n s) of
                  (b, r') \<Rightarrow>
                    Some (sys\<lparr>shared := b, readers := (readers sys)[i := Some (r', None)]\<rparr>))
          else None
      | _ \<Rightarrow> None)"
| "step k WriterSlice sys =
     (case brdct_writer_slice (shared sys) k of
        (b, s) \<Rightarrow> Some (sys\<lparr>shared := b, wslice := Some s\<rparr>))"
| "step k (WriterCommit n) sys =
     (case wslice sys of
        Some s \<Rightarrow>
          if n \<le> len s
          then Some (sys\<lparr>shared := brdct_writer_commit (shared sys) k (consume n s), wslice := None\<rparr>)
          else None
      | None \<Rightarrow> None)"

fun run :: "nat \<Rightarrow> brdct_op list \<Rightarrow> system \<Rightarrow> system option" where
  "run k [] sys = Some sys"
| "run k (x # xs) sys = (case step k x sys of None \<Rightarrow> None | Some sys' \<Rightarrow> run k xs sys')"

definition system_zero :: system where
  "system_zero = \<lparr>shared = brdct_zero, readers = [], wslice = None\<rparr>"

text \<open>
  One reader and the writer with capacity \<open>2 ^ 31\<close>: the reader attaches, and four
  times the writer fills all it may and the reader drains all it may.  The writer
  produces \<open>2 ^ 31 - 1\<close> elements, then \<open>2 ^ 30\<close> three times, in all
  \<open>5 * 2 ^ 30 - 1\<close>, which is past \<open>2 ^ 32\<close>.
\<close>

definition wrap_trace :: "brdct_op list" where
  "wrap_trace =
     [Attach,
      WriterSlice, WriterCommit (2 ^ 31 - 1), ReaderSlice 0, ReaderCommit 0 (2 ^ 31 - 1),
      WriterSlice, WriterCommit (2 ^ 30), ReaderSlice 0, ReaderCommit 0 (2 ^ 30),
      WriterSlice, WriterCommit (2 ^ 30), ReaderSlice 0, ReaderCommit 0 (2 ^ 30),
      WriterSlice, WriterCommit (2 ^ 30), ReaderSlice 0, ReaderCommit 0 (2 ^ 30)]"


subsection \<open>The invariant of the reachable states\<close>

text \<open>
  The quantities the proofs about sequences of operations keep track of.
  \<open>produced\<close> is the number of elements the writer has committed.  A reader is
  \<open>present\<close> while attached and \<open>cycled\<close> when it stands in the writer's half-block.
  \<open>reader_ok\<close> says that a reader is at or after the derived head (stated on
  half-block numbers: the reader is at most \<open>hstate\<close> half-blocks behind \<open>tail\<close>),
  not past \<open>tail\<close>, and that an uncommitted slice of it ends at or before \<open>tail\<close>;
  \<open>writer_ok\<close> that the writer's uncommitted slice ends at least one element before
  the derived head plus the capacity.  \<open>brdct_inv\<close> adds that \<open>nreaders\<close> and
  \<open>ncycled\<close> count the present and the cycled readers, and that \<open>tail\<close> is below
  \<open>2 ^ 32\<close>.
\<close>

definition amount :: "brdct_op \<Rightarrow> nat" where
  "amount x = (case x of WriterCommit n \<Rightarrow> unat n | _ \<Rightarrow> 0)"

definition produced :: "brdct_op list \<Rightarrow> nat" where
  "produced xs = sum_list (map amount xs)"

definition present :: "(Reader \<times> Slice option) option \<Rightarrow> nat" where
  "present c = (case c of None \<Rightarrow> 0 | Some _ \<Rightarrow> 1)"

definition cycled :: "nat \<Rightarrow> Broadcast \<Rightarrow> (Reader \<times> Slice option) option \<Rightarrow> nat" where
  "cycled k b c =
     (case c of None \<Rightarrow> 0
      | Some (r, _) \<Rightarrow> if unat r div 2 ^ (k - 1) = unat (tail b) div 2 ^ (k - 1) then 1 else 0)"

definition reader_ok :: "nat \<Rightarrow> Broadcast \<Rightarrow> (Reader \<times> Slice option) option \<Rightarrow> bool" where
  "reader_ok k b c =
     (case c of None \<Rightarrow> True
      | Some (r, p) \<Rightarrow>
          unat (tail b) div 2 ^ (k - 1) \<le> unat r div 2 ^ (k - 1) + unat (hstate b) \<and>
          unat r \<le> unat (tail b) \<and>
          (case p of None \<Rightarrow> True
           | Some s \<Rightarrow> len s = cnt0 s + cnt1 s \<and> unat r + unat (len s) \<le> unat (tail b)))"

definition writer_ok :: "nat \<Rightarrow> Broadcast \<Rightarrow> Slice option \<Rightarrow> bool" where
  "writer_ok k b w =
     (case w of None \<Rightarrow> True
      | Some s \<Rightarrow>
          len s = cnt0 s + cnt1 s \<and>
          unat (tail b) mod 2 ^ (k - 1) + 2 ^ (k - 1) * unat (hstate b) + unat (len s) \<le> 2 ^ k - 1)"

definition brdct_inv :: "nat \<Rightarrow> system \<Rightarrow> bool" where
  "brdct_inv k sys =
     (unat (tail (shared sys)) < 2 ^ 32 \<and>
      (hstate (shared sys) = 1 \<longrightarrow> 2 ^ (k - 1) \<le> unat (tail (shared sys))) \<and>
      (\<forall>c \<in> set (readers sys). reader_ok k (shared sys) c) \<and>
      unat (nreaders (shared sys)) = sum_list (map present (readers sys)) \<and>
      unat (ncycled (shared sys)) =
        (if hstate (shared sys) = 1 then sum_list (map (cycled k (shared sys)) (readers sys)) else 0) \<and>
      writer_ok k (shared sys) (wslice sys))"

section \<open>The SPSC queue: proofs\<close>

subsection \<open>Blocks of a power-of-two capacity, on natural numbers\<close>

lemma divmod_unique:
  fixes x q C r :: nat
  assumes "x = q * C + r" "r < C"
  shows "x div C = q" "x mod C = r"
  using assms by auto

lemma blk_lt:
  fixes C M H D :: nat
  assumes "H < C * M" "H mod C + D < C"
  shows "H + D < C * M"
proof -
  have q: "H div C < M" using assms(1)
    by (simp add: less_mult_imp_div_less mult.commute)
  then have "(H div C + 1) * C \<le> M * C"
    by (intro mult_le_mono1) simp
  moreover have "H + D < (H div C + 1) * C"
  proof -
    have "H + D = H div C * C + (H mod C + D)" by simp
    also have "\<dots> < H div C * C + C" using assms(2) by linarith
    finally show ?thesis by simp
  qed
  ultimately show ?thesis by (simp add: mult.commute)
qed

lemma blk_same:
  fixes C M H D :: nat
  assumes "H < C * M" "H mod C + D < C"
  shows "(H + D) mod (C * M) div C = H div C" "(H + D) mod (C * M) mod C = H mod C + D"
proof -
  have T: "(H + D) mod (C * M) = H + D" using blk_lt[OF assms] by simp
  have e: "H + D = H div C * C + (H mod C + D)" by simp
  show "(H + D) mod (C * M) div C = H div C" unfolding T
    by (rule divmod_unique(1)[OF e assms(2)])
  show "(H + D) mod (C * M) mod C = H mod C + D" unfolding T
    by (rule divmod_unique(2)[OF e assms(2)])
qed

lemma blk_next:
  fixes C M H D :: nat
  assumes "H < C * M" "C \<le> H mod C + D" "D \<le> C"
  shows "(H + D) mod (C * M) mod C = H mod C + D - C"
    and "(H + D) mod (C * M) div C = (if H div C + 1 = M then 0 else H div C + 1)"
proof -
  have C: "0 < C" using assms(1) by (cases C) auto
  have "H mod C < C" using C by simp
  then have r: "H mod C + D - C < C" using assms(3) by linarith
  have q: "H div C < M" using assms(1)
    by (simp add: less_mult_imp_div_less mult.commute)
  have e: "H + D = (H div C + 1) * C + (H mod C + D - C)"
  proof -
    have "H + D = H div C * C + (H mod C + D)" by simp
    also have "\<dots> = H div C * C + (C + (H mod C + D - C))" using assms(2) by simp
    finally show ?thesis by simp
  qed
  have "(H + D) mod (C * M) mod C = (H + D) mod C"
    by (simp add: mod_mod_cancel)
  then show "(H + D) mod (C * M) mod C = H mod C + D - C"
    using divmod_unique(2)[OF e r] by simp
  show "(H + D) mod (C * M) div C = (if H div C + 1 = M then 0 else H div C + 1)"
  proof (cases "H div C + 1 = M")
    case True
    then have "H + D = (H mod C + D - C) + C * M" using e by (simp add: mult.commute)
    then have "(H + D) mod (C * M) = (H mod C + D - C) mod (C * M)"
      by simp
    moreover have "H mod C + D - C < C * M" using r True C
      by (cases M) auto
    ultimately have "(H + D) mod (C * M) = H mod C + D - C" by simp
    then show ?thesis using True r by simp
  next
    case False
    then have "H div C + 1 < M" using q by simp
    then have "(H div C + 1 + 1) * C \<le> M * C" by (intro mult_le_mono1) simp
    then have "H + D < C * M" using e r by (simp add: mult.commute)
    then have "(H + D) mod (C * M) = H + D" by simp
    then show ?thesis using False divmod_unique(1)[OF e r] by simp
  qed
qed

subsection \<open>Reading the masks and shifts of the code as \<open>mod\<close> and \<open>div\<close>\<close>

lemma and_low_mask: "(x :: 'a::len word) AND (2 ^ k - 1) = take_bit k x"
  by (simp add: take_bit_eq_mask flip: mask_eq_exp_minus_1)

lemma unat_and_low_mask: "unat ((x :: 'a::len word) AND (2 ^ k - 1)) = unat x mod 2 ^ k"
  unfolding and_low_mask unsigned_take_bit_eq by (simp add: take_bit_eq_mod)

lemma unat_pow2_word: "k < LENGTH('a) \<Longrightarrow> unat (2 ^ k :: 'a::len word) = 2 ^ k"
  by (simp add: of_nat_inverse)

lemma unat_drop_bit_div: "unat (drop_bit k (x :: 'a::len word)) = unat x div 2 ^ k"
  unfolding unat_drop_bit_eq by (simp add: drop_bit_eq_div)

lemma pow_split: "k \<le> n \<Longrightarrow> (2::nat) ^ k * 2 ^ (n - k) = 2 ^ n"
  by (simp flip: power_add)

lemma odd_unat_iff: "odd (unat (x :: 'a::len word)) = odd x"
proof -
  have "bit (unat x) 0 = bit x 0" by (simp add: bit_unsigned_iff)
  then show ?thesis by (simp add: bit_0)
qed

lemma odd_word_and_1: "odd (unat (x :: 'a::len word)) \<Longrightarrow> (- x) AND 1 = 1"
  by (simp add: odd_unat_iff and_one_eq mod_2_eq_odd)

lemma queue_cond:
  fixes h d :: "'a::len word"
  assumes k: "k < LENGTH('a)" and d: "unat d \<le> 2 ^ k"
  shows "(drop_bit k (h + d) - drop_bit k h) AND 1 =
         (if unat h mod 2 ^ k + unat d < 2 ^ k then 0 else 1)"
proof -
  define C :: nat where "C = 2 ^ k"
  define M :: nat where "M = 2 ^ (LENGTH('a) - k)"
  have CM: "C * M = 2 ^ LENGTH('a)" using k by (simp add: C_def M_def pow_split)
  have H: "unat h < C * M" unfolding CM by simp
  have T: "unat (h + d) = (unat h + unat d) mod (C * M)"
    unfolding CM by (simp add: unat_word_ariths)
  show ?thesis
  proof (cases "unat h mod C + unat d < C")
    case True
    have "unat (drop_bit k (h + d)) = unat (drop_bit k h)"
      unfolding unat_drop_bit_div T C_def[symmetric] using blk_same(1)[OF H True] .
    then have "drop_bit k (h + d) = drop_bit k h" by (simp add: word_unat_eq_iff)
    then show ?thesis using True by (simp add: C_def)
  next
    case False
    then have ge: "C \<le> unat h mod C + unat d" by simp
    have dC: "unat d \<le> C" using d by (simp add: C_def)
    have q: "unat (drop_bit k (h + d)) = (if unat h div C + 1 = M then 0 else unat h div C + 1)"
      unfolding unat_drop_bit_div T C_def[symmetric] using blk_next(2)[OF H ge dC] .
    show ?thesis
    proof (cases "unat h div C + 1 = M")
      case True
      then have z: "drop_bit k (h + d) = 0" using q by (simp add: unat_eq_0)
      have "unat (drop_bit k h) = M - 1" using True by (simp add: unat_drop_bit_div C_def)
      moreover have "odd (M - 1)" using k by (simp add: M_def)
      ultimately have "odd (unat (drop_bit k h))" by simp
      then have "(- drop_bit k h) AND 1 = 1" by (rule odd_word_and_1)
      then show ?thesis using False z by (simp add: C_def)
    next
      case F2: False
      have "unat h div C < M" using H
        by (simp add: less_mult_imp_div_less mult.commute)
      then have "unat h div C + 1 < 2 ^ LENGTH('a)" using F2 CM
        by (metis q unsigned_less)
      then have "unat (drop_bit k h + 1) = unat h div C + 1"
        by (metis C_def unat_add_lem unat_drop_bit_div unsigned_1)
      then have "drop_bit k (h + d) = drop_bit k h + 1" using q F2
        by (simp add: word_unat_eq_iff)
      then show ?thesis using False by (simp add: C_def)
    qed
  qed
qed


lemma queue_low_bits:
  fixes h d :: "'a::len word"
  assumes k: "k < LENGTH('a)" and d: "unat d \<le> 2 ^ k"
  shows "unat ((h + d) AND (2 ^ k - 1)) =
         (if unat h mod 2 ^ k + unat d < 2 ^ k then unat h mod 2 ^ k + unat d
          else unat h mod 2 ^ k + unat d - 2 ^ k)"
proof -
  define C :: nat where "C = 2 ^ k"
  define M :: nat where "M = 2 ^ (LENGTH('a) - k)"
  have CM: "C * M = 2 ^ LENGTH('a)" using k by (simp add: C_def M_def pow_split)
  have H: "unat h < C * M" unfolding CM by simp
  have T: "unat (h + d) = (unat h + unat d) mod (C * M)"
    unfolding CM by (simp add: unat_word_ariths)
  show ?thesis
  proof (cases "unat h mod C + unat d < C")
    case True
    show ?thesis
      unfolding unat_and_low_mask T C_def[symmetric] using blk_same(2)[OF H True] True by simp
  next
    case False
    then have ge: "C \<le> unat h mod C + unat d" by simp
    have dC: "unat d \<le> C" using d by (simp add: C_def)
    show ?thesis
      unfolding unat_and_low_mask T C_def[symmetric] using blk_next(1)[OF H ge dC] False by simp
  qed
qed


lemma queue_pop_nat:
  fixes q :: "'a::len Queue"
  assumes k: "k < LENGTH('a)" and d: "unat (Queue.tail q - Queue.head q) \<le> 2 ^ k"
  shows "unat (fst (queue_pop q k)) = unat (Queue.head q) mod 2 ^ k"
    and "unat (snd (queue_pop q k)) =
         min (unat (Queue.tail q - Queue.head q)) (2 ^ k - unat (Queue.head q) mod 2 ^ k)"
proof -
  define h where "h = Queue.head q"
  define dd where "dd = Queue.tail q - Queue.head q"
  have t: "Queue.tail q = h + dd" by (simp add: h_def dd_def)
  have d': "unat dd \<le> 2 ^ k" using d by (simp add: dd_def)
  note c = queue_cond[OF k d', of h]
  note l = queue_low_bits[OF k d', of h]
  show "unat (fst (queue_pop q k)) = unat (Queue.head q) mod 2 ^ k"
    by (simp add: queue_pop_def Let_def unat_and_low_mask)
  have a: "unat h mod 2 ^ k < 2 ^ k" by simp
  show "unat (snd (queue_pop q k)) =
         min (unat (Queue.tail q - Queue.head q)) (2 ^ k - unat (Queue.head q) mod 2 ^ k)"
  proof (cases "unat h mod 2 ^ k + unat dd < 2 ^ k")
    case True
    have "snd (queue_pop q k) = dd"
      unfolding queue_pop_def Let_def push_bit_of_1 t h_def[symmetric] c using True by simp
    then show ?thesis using True unfolding t h_def[symmetric] by simp
  next
    case False
    have s: "snd (queue_pop q k) = dd - ((h + dd) AND (2 ^ k - 1))"
      unfolding queue_pop_def Let_def push_bit_of_1 t h_def[symmetric] c using False by simp
    have u: "unat ((h + dd) AND (2 ^ k - 1)) = unat h mod 2 ^ k + unat dd - 2 ^ k"
      using l False by simp
    then have "unat ((h + dd) AND (2 ^ k - 1)) \<le> unat dd" using a by linarith
    then have "(h + dd) AND (2 ^ k - 1) \<le> dd" by (simp add: word_le_nat_alt)
    then have "unat (snd (queue_pop q k)) = unat dd - (unat h mod 2 ^ k + unat dd - 2 ^ k)"
      unfolding s using u by (simp add: unat_sub)
    then show ?thesis using False a unfolding t h_def[symmetric] by simp
  qed
qed

lemma queue_push_nat:
  fixes q :: "'a::len Queue"
  assumes k: "k < LENGTH('a)" and d: "unat (Queue.tail q - Queue.head q) \<le> 2 ^ k"
  shows "unat (fst (queue_push q k)) = unat (Queue.tail q) mod 2 ^ k"
    and "unat (snd (queue_push q k)) =
         min (2 ^ k - unat (Queue.tail q - Queue.head q)) (2 ^ k - unat (Queue.tail q) mod 2 ^ k)"
proof -
  define h where "h = Queue.head q"
  define dd where "dd = Queue.tail q - Queue.head q"
  have t: "Queue.tail q = h + dd" by (simp add: h_def dd_def)
  have d': "unat dd \<le> 2 ^ k" using d by (simp add: dd_def)
  note c = queue_cond[OF k d', of h]
  note l = queue_low_bits[OF k d', of h]
  show "unat (fst (queue_push q k)) = unat (Queue.tail q) mod 2 ^ k"
    by (simp add: queue_push_def Let_def unat_and_low_mask)
  have a: "unat h mod 2 ^ k < 2 ^ k" by simp
  have p: "unat (2 ^ k :: 'a word) = 2 ^ k" by (rule unat_pow2_word[OF k])
  have dle: "dd \<le> 2 ^ k" using d' p by (simp add: word_le_nat_alt)
  have cd: "unat (2 ^ k - dd) = 2 ^ k - unat dd"
    using dle p by (simp add: unat_sub)
  have tm: "unat (Queue.tail q) mod 2 ^ k = unat ((h + dd) AND (2 ^ k - 1))"
    by (simp add: t unat_and_low_mask)
  have dq: "Queue.tail q - h = dd" by (simp add: t)
  show "unat (snd (queue_push q k)) =
         min (2 ^ k - unat (Queue.tail q - Queue.head q)) (2 ^ k - unat (Queue.tail q) mod 2 ^ k)"
  proof (cases "unat h mod 2 ^ k + unat dd < 2 ^ k")
    case True
    have s: "snd (queue_push q k) = 2 ^ k - dd - (h AND (2 ^ k - 1))"
      unfolding queue_push_def Let_def push_bit_of_1 h_def[symmetric] dq
      using c True by (simp add: t)
    have "unat (h AND (2 ^ k - 1)) \<le> unat (2 ^ k - dd)"
      unfolding cd unat_and_low_mask using True by linarith
    then have "h AND (2 ^ k - 1) \<le> 2 ^ k - dd"
      by (simp only: word_le_nat_alt)
    then have "unat (snd (queue_push q k)) = 2 ^ k - unat dd - unat h mod 2 ^ k"
      unfolding s using cd by (simp add: unat_sub unat_and_low_mask)
    then show ?thesis unfolding tm l h_def[symmetric] dq using True by (simp add: dd_def h_def)
  next
    case False
    have s: "snd (queue_push q k) = 2 ^ k - dd"
      unfolding queue_push_def Let_def push_bit_of_1 h_def[symmetric] dq
      using c False by (simp add: t)
    have "2 ^ k - unat dd = min (2 ^ k - unat dd) (2 ^ k - (unat h mod 2 ^ k + unat dd - 2 ^ k))"
      using a d' by linarith
    then show ?thesis unfolding tm l s cd h_def[symmetric] dq using False by simp
  qed
qed


lemma queue_cond_parity:
  fixes t h :: "'a::len word"
  shows "(drop_bit k t - drop_bit k h) AND 1 =
         of_bool (odd (unat t div 2 ^ k) \<noteq> odd (unat h div 2 ^ k))"
proof -
  have "odd (drop_bit k t - drop_bit k h) = (odd (drop_bit k t) \<noteq> odd (drop_bit k h))"
    by (simp add: even_diff)
  also have "\<dots> = (odd (unat t div 2 ^ k) \<noteq> odd (unat h div 2 ^ k))"
    by (simp only: odd_unat_iff[symmetric] unat_drop_bit_div)
  finally show ?thesis by (simp only: and_one_eq mod_2_eq_odd)
qed

lemma nat_block_parity:
  fixes C M x :: nat
  assumes "even M"
  shows "odd (x mod (C * M) div C) = odd (x div C)"
proof (cases "C = 0")
  case True
  then show ?thesis by simp
next
  case False
  have "x mod (C * M) div C = (C * (x div C mod M) + x mod C) div C"
    by (simp only: mod_mult2_eq)
  also have "\<dots> = x div C mod M" using False by simp
  finally have e: "x mod (C * M) div C = x div C mod M" .
  have "x div C mod M mod 2 = x div C mod 2"
    using assms by (simp add: mod_mod_cancel)
  then show ?thesis unfolding e by (simp only: odd_iff_mod_2_eq_one)
qed

lemma queue_shift_parity:
  fixes t d :: "'a::len word"
  assumes k: "k < LENGTH('a)" and dv: "2 ^ k dvd unat d"
  shows "odd (unat (t + d) div 2 ^ k) = (odd (unat t div 2 ^ k) \<noteq> odd (unat d div 2 ^ k))"
proof -
  define M :: nat where "M = 2 ^ (LENGTH('a) - k)"
  have CM: "2 ^ k * M = 2 ^ LENGTH('a)" using k by (simp add: M_def pow_split)
  have M: "even M" using k by (simp add: M_def)
  have T: "unat (t + d) = (unat t + unat d) mod (2 ^ k * M)"
    unfolding CM by (simp add: unat_word_ariths)
  have "(unat t + unat d) div 2 ^ k = unat t div 2 ^ k + unat d div 2 ^ k"
    using dv by (simp add: div_plus_div_distrib_dvd_right)
  then show ?thesis unfolding T nat_block_parity[OF M] by simp
qed

lemma queue_shift_low_bits:
  fixes t d :: "'a::len word"
  assumes k: "k < LENGTH('a)" and dv: "2 ^ k dvd unat d"
  shows "(t + d) AND (2 ^ k - 1) = t AND (2 ^ k - 1)"
  by (metis add.right_neutral and_mask_dvd_nat dv mask_eq_exp_minus_1 mask_eqs(2))


lemma queue_shift_cond:
  fixes t h d :: "'a::len word"
  assumes k: "k < LENGTH('a)" and dv: "2 ^ k dvd unat d"
  shows "(drop_bit k (t + d) - drop_bit k (h + d)) AND 1 = (drop_bit k t - drop_bit k h) AND 1"
  unfolding queue_cond_parity queue_shift_parity[OF k dv] by auto

lemma unat_add_mod_pow:
  fixes x y :: "'a::len word"
  assumes "k < LENGTH('a)"
  shows "unat (x + y) mod 2 ^ k = (unat x + unat y) mod 2 ^ k"
proof -
  have "(2::nat) ^ k dvd 2 ^ LENGTH('a)" using assms by (simp add: le_imp_power_dvd)
  then show ?thesis by (simp add: unat_word_ariths mod_mod_cancel)
qed

lemma nat_round_up:
  fixes H C :: nat
  assumes "0 < C"
  shows "(H + (C - H mod C)) mod C = 0"
proof -
  have "H mod C < C" using assms by simp
  then have "H + (C - H mod C) = H div C * C + C"
    using div_mult_mod_eq[of H C] by linarith
  then show ?thesis by simp
qed

lemma queue_pop_remainder:
  fixes q :: "'a::len Queue"
  assumes k: "k < LENGTH('a)" and inv: "unat (Queue.tail q - Queue.head q) \<le> 2 ^ k"
    and tr: "2 ^ k - unat (Queue.head q) mod 2 ^ k < unat (Queue.tail q - Queue.head q)"
  shows "fst (queue_pop (queue_commit_pop q (snd (queue_pop q k))) k) = 0"
    and "unat (snd (queue_pop (queue_commit_pop q (snd (queue_pop q k))) k)) =
         unat (Queue.tail q - Queue.head q) - unat (snd (queue_pop q k))"
proof -
  define c where "c = snd (queue_pop q k)"
  define q' where "q' = queue_commit_pop q c"
  have a: "unat (Queue.head q) mod 2 ^ k < 2 ^ k" by simp
  have c: "unat c = 2 ^ k - unat (Queue.head q) mod 2 ^ k"
    unfolding c_def queue_pop_nat(2)[OF k inv] using tr by simp
  then have "c \<le> Queue.tail q - Queue.head q" using tr by (simp add: word_le_nat_alt)
  then have "unat (Queue.tail q - Queue.head q - c) = unat (Queue.tail q - Queue.head q) - unat c"
    by (rule unat_sub)
  moreover have "Queue.tail q' - Queue.head q' = Queue.tail q - Queue.head q - c"
    by (simp add: q'_def queue_commit_pop_def)
  ultimately have d': "unat (Queue.tail q' - Queue.head q') = unat (Queue.tail q - Queue.head q) - unat c"
    by simp
  then have inv': "unat (Queue.tail q' - Queue.head q') \<le> 2 ^ k" using inv by simp
  have "(unat (Queue.head q) + (2 ^ k - unat (Queue.head q) mod 2 ^ k)) mod 2 ^ k = 0"
    by (rule nat_round_up) simp
  then have h': "unat (Queue.head q') mod 2 ^ k = 0"
    by (simp add: q'_def queue_commit_pop_def unat_add_mod_pow[OF k] c)
  have "unat (fst (queue_pop q' k)) = 0" using queue_pop_nat(1)[OF k inv'] h' by simp
  then show "fst (queue_pop (queue_commit_pop q (snd (queue_pop q k))) k) = 0"
    by (simp add: q'_def c_def unat_eq_0)
  show "unat (snd (queue_pop (queue_commit_pop q (snd (queue_pop q k))) k)) =
         unat (Queue.tail q - Queue.head q) - unat (snd (queue_pop q k))"
    using queue_pop_nat(2)[OF k inv'] h' d' inv' by (simp add: q'_def c_def)
qed

lemma queue_push_remainder:
  fixes q :: "'a::len Queue"
  assumes k: "k < LENGTH('a)" and inv: "unat (Queue.tail q - Queue.head q) \<le> 2 ^ k"
    and tr: "2 ^ k - unat (Queue.tail q) mod 2 ^ k < 2 ^ k - unat (Queue.tail q - Queue.head q)"
  shows "fst (queue_push (queue_commit_push q (snd (queue_push q k))) k) = 0"
    and "unat (snd (queue_push (queue_commit_push q (snd (queue_push q k))) k)) =
         2 ^ k - unat (Queue.tail q - Queue.head q) - unat (snd (queue_push q k))"
proof -
  define c where "c = snd (queue_push q k)"
  define q' where "q' = queue_commit_push q c"
  have a: "unat (Queue.tail q) mod 2 ^ k < 2 ^ k" by simp
  have c: "unat c = 2 ^ k - unat (Queue.tail q) mod 2 ^ k"
    unfolding c_def queue_push_nat(2)[OF k inv] using tr by simp
  have "(2::nat) ^ k < 2 ^ LENGTH('a)" using k by simp
  then have "unat (Queue.tail q - Queue.head q) + unat c < 2 ^ LENGTH('a)"
    using tr c a by linarith
  then have "unat (Queue.tail q - Queue.head q + c) = unat (Queue.tail q - Queue.head q) + unat c"
    by (simp only: unat_add_lem)
  moreover have "Queue.tail q' - Queue.head q' = Queue.tail q - Queue.head q + c"
    by (simp add: q'_def queue_commit_push_def)
  ultimately have d': "unat (Queue.tail q' - Queue.head q') = unat (Queue.tail q - Queue.head q) + unat c"
    by simp
  then have inv': "unat (Queue.tail q' - Queue.head q') \<le> 2 ^ k" using tr c a by linarith
  have "(unat (Queue.tail q) + (2 ^ k - unat (Queue.tail q) mod 2 ^ k)) mod 2 ^ k = 0"
    by (rule nat_round_up) simp
  then have h': "unat (Queue.tail q') mod 2 ^ k = 0"
    by (simp add: q'_def queue_commit_push_def unat_add_mod_pow[OF k] c)
  have "unat (fst (queue_push q' k)) = 0" using queue_push_nat(1)[OF k inv'] h' by simp
  then show "fst (queue_push (queue_commit_push q (snd (queue_push q k))) k) = 0"
    by (simp add: q'_def c_def unat_eq_0)
  show "unat (snd (queue_push (queue_commit_push q (snd (queue_push q k))) k)) =
         2 ^ k - unat (Queue.tail q - Queue.head q) - unat (snd (queue_push q k))"
    using queue_push_nat(2)[OF k inv'] h' d' inv' by (simp add: q'_def c_def)
qed


subsection \<open>The claims about the SPSC queue\<close>

text \<open>
  Claim C5 (maximal contiguous run).  Let \<open>C = 2 ^ k\<close> with \<open>k\<close> below the width of
  \<^verbatim>\<open>size_t\<close>, and let the occupancy \<open>tail - head\<close> (modular) be at most \<open>C\<close>.  Then
  \<^verbatim>\<open>queue_pop\<close> returns index \<open>head mod C\<close> and count
  \<open>min (tail - head) (C - head mod C)\<close>; \<^verbatim>\<open>queue_push\<close> returns index \<open>tail mod C\<close> and
  count \<open>min (C - (tail - head)) (C - tail mod C)\<close>; in both cases
  \<open>index + count \<le> C\<close>.  When the run is cut at the end of the array, committing the
  returned count makes the next call start at index 0 and return exactly the
  remainder.
\<close>

theorem spsc_maximal_contiguous_run:
  fixes q :: "'a::len Queue"
  assumes k: "k < LENGTH('a)" and inv: "unat (Queue.tail q - Queue.head q) \<le> 2 ^ k"
  shows "unat (fst (queue_pop q k)) = unat (Queue.head q) mod 2 ^ k
       \<and> unat (snd (queue_pop q k)) =
           min (unat (Queue.tail q - Queue.head q)) (2 ^ k - unat (Queue.head q) mod 2 ^ k)
       \<and> unat (fst (queue_push q k)) = unat (Queue.tail q) mod 2 ^ k
       \<and> unat (snd (queue_push q k)) =
           min (2 ^ k - unat (Queue.tail q - Queue.head q)) (2 ^ k - unat (Queue.tail q) mod 2 ^ k)
       \<and> unat (fst (queue_pop q k)) + unat (snd (queue_pop q k)) \<le> 2 ^ k
       \<and> unat (fst (queue_push q k)) + unat (snd (queue_push q k)) \<le> 2 ^ k
       \<and> (2 ^ k - unat (Queue.head q) mod 2 ^ k < unat (Queue.tail q - Queue.head q) \<longrightarrow>
            fst (queue_pop (queue_commit_pop q (snd (queue_pop q k))) k) = 0 \<and>
            unat (snd (queue_pop (queue_commit_pop q (snd (queue_pop q k))) k)) =
              unat (Queue.tail q - Queue.head q) - unat (snd (queue_pop q k)))
       \<and> (2 ^ k - unat (Queue.tail q) mod 2 ^ k < 2 ^ k - unat (Queue.tail q - Queue.head q) \<longrightarrow>
            fst (queue_push (queue_commit_push q (snd (queue_push q k))) k) = 0 \<and>
            unat (snd (queue_push (queue_commit_push q (snd (queue_push q k))) k)) =
              2 ^ k - unat (Queue.tail q - Queue.head q) - unat (snd (queue_push q k)))"
proof -
  note p = queue_pop_nat[OF k inv] and u = queue_push_nat[OF k inv]
  have a: "unat (Queue.head q) mod 2 ^ k < 2 ^ k" "unat (Queue.tail q) mod 2 ^ k < 2 ^ k"
    by simp_all
  have "unat (fst (queue_pop q k)) + unat (snd (queue_pop q k)) \<le> 2 ^ k"
    unfolding p using a by linarith
  moreover have "unat (fst (queue_push q k)) + unat (snd (queue_push q k)) \<le> 2 ^ k"
    unfolding u using a by linarith
  ultimately show ?thesis
    using p u queue_pop_remainder[OF k inv] queue_push_remainder[OF k inv] by blast
qed

theorem spsc_maximal_contiguous_run_witness:
  "(2::nat) < LENGTH(8) \<and> unat (Queue.tail \<lparr>head = 254 :: 8 word, tail = 1\<rparr> -
       Queue.head \<lparr>head = 254 :: 8 word, tail = 1\<rparr>) \<le> 2 ^ 2
   \<and> queue_pop \<lparr>head = 254 :: 8 word, tail = 1\<rparr> 2 = (2, 2)
   \<and> queue_push \<lparr>head = 254 :: 8 word, tail = 1\<rparr> 2 = (1, 1)
   \<and> queue_pop (queue_commit_pop \<lparr>head = 254 :: 8 word, tail = 1\<rparr> 2) 2 = (0, 1)"
  using spsc_maximal_contiguous_run[of 2 "\<lparr>head = 254 :: 8 word, tail = 1\<rparr>"]
  by (simp add: queue_pop_def queue_push_def queue_commit_pop_def)

text \<open>
  Claim C6 (empty and full are told apart).  Under the same hypotheses,
  \<^verbatim>\<open>queue_pop\<close> sets \<^verbatim>\<open>*count\<close> to 0 exactly when \<open>head = tail\<close>, and \<^verbatim>\<open>queue_push\<close>
  sets it to 0 exactly when the occupancy \<open>tail - head\<close> (modular) equals \<open>C\<close>.
\<close>

theorem spsc_empty_full:
  fixes q :: "'a::len Queue"
  assumes k: "k < LENGTH('a)" and inv: "unat (Queue.tail q - Queue.head q) \<le> 2 ^ k"
  shows "(snd (queue_pop q k) = 0) = (Queue.head q = Queue.tail q)
       \<and> (snd (queue_push q k) = 0) = (unat (Queue.tail q - Queue.head q) = 2 ^ k)"
proof -
  have a: "unat (Queue.head q) mod 2 ^ k < 2 ^ k" "unat (Queue.tail q) mod 2 ^ k < 2 ^ k"
    by simp_all
  have "(snd (queue_pop q k) = 0) = (unat (Queue.tail q - Queue.head q) = 0)"
    unfolding unat_eq_0[symmetric] queue_pop_nat(2)[OF k inv] using a by linarith
  also have "\<dots> = (Queue.head q = Queue.tail q)" by (auto simp: unat_eq_0)
  finally have 1: "(snd (queue_pop q k) = 0) = (Queue.head q = Queue.tail q)" .
  have 2: "(snd (queue_push q k) = 0) = (unat (Queue.tail q - Queue.head q) = 2 ^ k)"
    unfolding unat_eq_0[symmetric] queue_push_nat(2)[OF k inv] using a inv by linarith
  show ?thesis using 1 2 by simp
qed

theorem spsc_empty_full_witness:
  "(2::nat) < LENGTH(8) \<and> unat (Queue.tail \<lparr>head = 254 :: 8 word, tail = 2\<rparr> -
       Queue.head \<lparr>head = 254 :: 8 word, tail = 2\<rparr>) \<le> 2 ^ 2
   \<and> snd (queue_push \<lparr>head = 254 :: 8 word, tail = 2\<rparr> 2) = 0
   \<and> snd (queue_pop \<lparr>head = 254 :: 8 word, tail = 2\<rparr> 2) \<noteq> 0"
  using spsc_empty_full[of 2 "\<lparr>head = 254 :: 8 word, tail = 2\<rparr>"]
  by simp

text \<open>
  Claim C8 (wrap safety).  Adding one multiple \<open>d\<close> of \<open>C = 2 ^ k\<close> to both counters,
  modulo the width of \<^verbatim>\<open>size_t\<close>, changes neither the index nor the count returned by
  \<^verbatim>\<open>queue_pop\<close> and \<^verbatim>\<open>queue_push\<close>; this holds for every pair of counters, whatever
  the occupancy.  In particular, a queue whose counters start at
  \<open>head = tail = SIZE_MAX - e\<close> is empty, and after a push of any \<open>n\<close> elements that
  \<^verbatim>\<open>queue_push\<close> allows, which may carry \<open>tail\<close> past \<^verbatim>\<open>SIZE_MAX\<close>, \<^verbatim>\<open>queue_pop\<close>
  returns those \<open>n\<close> elements at the index where they were pushed.
\<close>

theorem spsc_wrap_safety:
  fixes q :: "'a::len Queue" and d e n :: "'a word"
  assumes k: "k < LENGTH('a)" and dv: "2 ^ k dvd unat d"
  shows "queue_pop \<lparr>head = Queue.head q + d, tail = Queue.tail q + d\<rparr> k = queue_pop q k
       \<and> queue_push \<lparr>head = Queue.head q + d, tail = Queue.tail q + d\<rparr> k = queue_push q k
       \<and> snd (queue_pop \<lparr>head = - 1 - e, tail = - 1 - e\<rparr> k) = 0
       \<and> (n \<le> snd (queue_push \<lparr>head = - 1 - e, tail = - 1 - e\<rparr> k) \<longrightarrow>
            queue_pop (queue_commit_push \<lparr>head = - 1 - e, tail = - 1 - e\<rparr> n) k =
              (fst (queue_push \<lparr>head = - 1 - e, tail = - 1 - e\<rparr> k), n))"
proof -
  define q0 :: "'a Queue" where "q0 = \<lparr>head = - 1 - e, tail = - 1 - e\<rparr>"
  have inv0: "unat (Queue.tail q0 - Queue.head q0) \<le> 2 ^ k" by (simp add: q0_def)
  have s: "queue_pop \<lparr>head = Queue.head q + d, tail = Queue.tail q + d\<rparr> k = queue_pop q k
       \<and> queue_push \<lparr>head = Queue.head q + d, tail = Queue.tail q + d\<rparr> k = queue_push q k"
    using queue_shift_cond[OF k dv] queue_shift_low_bits[OF k dv]
    by (simp add: queue_pop_def queue_push_def Let_def)
  have a: "unat (Queue.head q0) mod 2 ^ k < 2 ^ k" by simp
  have "unat (snd (queue_pop q0 k)) = 0"
    unfolding queue_pop_nat(2)[OF k inv0] by (simp add: q0_def)
  then have z: "snd (queue_pop q0 k) = 0" by (simp add: unat_eq_0)
  have w: "queue_pop (queue_commit_push q0 n) k = (fst (queue_push q0 k), n)"
    if n: "n \<le> snd (queue_push q0 k)"
  proof -
    define q1 where "q1 = queue_commit_push q0 n"
    have "unat n \<le> unat (snd (queue_push q0 k))" using n by (simp add: word_le_nat_alt)
    then have n': "unat n \<le> 2 ^ k - unat (Queue.head q0) mod 2 ^ k"
      unfolding queue_push_nat(2)[OF k inv0] by (simp add: q0_def)
    have d1: "Queue.tail q1 - Queue.head q1 = n"
      by (simp add: q1_def q0_def queue_commit_push_def)
    have inv1: "unat (Queue.tail q1 - Queue.head q1) \<le> 2 ^ k" unfolding d1 using n' by linarith
    have h1: "Queue.head q1 = Queue.head q0" by (simp add: q1_def queue_commit_push_def)
    have "unat (snd (queue_pop q1 k)) = min (unat n) (2 ^ k - unat (Queue.head q0) mod 2 ^ k)"
      using queue_pop_nat(2)[OF k inv1] by (simp only: d1 d1[unfolded h1] h1)
    then have "unat (snd (queue_pop q1 k)) = unat n"
      using n' by simp
    then have "snd (queue_pop q1 k) = n" by (simp add: word_unat_eq_iff)
    moreover have "fst (queue_pop q1 k) = fst (queue_push q0 k)"
      by (simp add: queue_pop_def queue_push_def Let_def q1_def q0_def queue_commit_push_def)
    ultimately show ?thesis unfolding q1_def by (simp add: prod_eq_iff)
  qed
  show ?thesis using s z w unfolding q0_def by blast
qed

theorem spsc_wrap_safety_witness:
  "(2::nat) < LENGTH(8) \<and> (2::nat) ^ 2 dvd unat (12 :: 8 word)
   \<and> queue_pop \<lparr>head = 254 + 12 :: 8 word, tail = 1 + 12\<rparr> 2 = queue_pop \<lparr>head = 254, tail = 1\<rparr> 2
   \<and> (2 :: 8 word) \<le> snd (queue_push \<lparr>head = - 1 - 1, tail = - 1 - 1\<rparr> 2)
   \<and> queue_pop (queue_commit_push \<lparr>head = - 1 - 1 :: 8 word, tail = - 1 - 1\<rparr> 2) 2 = (2, 2)"
  using spsc_wrap_safety[where k = 2 and d = "12 :: 8 word" and n = 2 and e = 1
      and q = "\<lparr>head = 254, tail = 1\<rparr>"]
  by (simp add: queue_push_def)

section \<open>The broadcast queue: proofs\<close>

subsection \<open>Words of different widths, masks and half-blocks\<close>

lemma same_block_iff:
  fixes h d :: "'a::len word"
  assumes k: "k < LENGTH('a)" and d: "unat d \<le> 2 ^ k"
  shows "(drop_bit k (h + d) = drop_bit k h) = (unat h mod 2 ^ k + unat d < 2 ^ k)"
proof -
  define C :: nat where "C = 2 ^ k"
  define M :: nat where "M = 2 ^ (LENGTH('a) - k)"
  have CM: "C * M = 2 ^ LENGTH('a)" using k by (simp add: C_def M_def pow_split)
  have M2: "2 \<le> M" using k unfolding M_def
    by (metis Suc_leI power_increasing power_one_right zero_less_diff one_le_numeral Suc_eq_plus1 add_0 )
  have H: "unat h < C * M" unfolding CM by simp
  have T: "unat (h + d) = (unat h + unat d) mod (C * M)"
    unfolding CM by (simp add: unat_word_ariths)
  have e: "(drop_bit k (h + d) = drop_bit k h) =
           ((unat h + unat d) mod (C * M) div C = unat h div C)"
    by (simp only: word_unat_eq_iff unat_drop_bit_div T C_def)
  show ?thesis
  proof (cases "unat h mod C + unat d < C")
    case True
    then show ?thesis unfolding e using blk_same(1)[OF H True] by (simp add: C_def)
  next
    case False
    then have ge: "C \<le> unat h mod C + unat d" by simp
    have dC: "unat d \<le> C" using d by (simp add: C_def)
    have "(unat h + unat d) mod (C * M) div C \<noteq> unat h div C"
      unfolding blk_next(2)[OF H ge dC] using M2 by auto
    then show ?thesis unfolding e using False by (simp add: C_def)
  qed
qed


lemma unat_ucast_mod: "unat (ucast (x :: 'a::len word) :: 'b::len word) = unat x mod 2 ^ LENGTH('b)"
  by (simp add: unsigned_ucast_eq take_bit_eq_mod)

lemma unat_ucast_up:
  assumes "LENGTH('a::len) \<le> LENGTH('b::len)"
  shows "unat (ucast (x :: 'a word) :: 'b word) = unat x"
proof -
  have "unat x < 2 ^ LENGTH('a)" by simp
  also have "(2::nat) ^ LENGTH('a) \<le> 2 ^ LENGTH('b)" using assms by simp
  finally show ?thesis by (simp add: unat_ucast_mod)
qed

lemma and_not_mask_diff: "(x :: 'a::len word) AND NOT (mask n) = x - (x AND mask n)"
proof -
  have "(x AND mask n) + (x AND NOT (mask n)) = (x AND mask n) OR (x AND NOT (mask n))"
    by (rule disjunctive_add) (auto simp add: bit_simps)
  also have "\<dots> = x"
    by (rule bit_eqI) (auto simp add: bit_simps)
  finally have "(x AND mask n) + (x AND NOT (mask n)) = x" .
  then show ?thesis by (simp add: algebra_simps)
qed

lemma and_neg_pow2: "(x :: 'a::len word) AND - (2 ^ n) = x - (x AND (2 ^ n - 1))"
  using and_not_mask_diff[of x n] by (simp add: minus_exp_eq_not_mask mask_eq_exp_minus_1)

lemma hstate_cases: "(h :: 1 word) = 0 \<or> h = 1"
proof -
  have "unat h < 2" using unsigned_less[of h, where 'a = nat] by simp
  then have "unat h = 0 \<or> unat h = 1" by linarith
  then show ?thesis by (simp add: word_unat_eq_iff)
qed

lemma detach_same_half:
  "(drop_bit n (ucast (t :: 33 word) :: 64 word) = ucast (drop_bit n (r :: 32 word))) =
   (unat t div 2 ^ n = unat r div 2 ^ n)"
  by (simp add: word_unat_eq_iff unat_ucast_up unat_drop_bit_div)

lemma reader_slice_len: "len (brdct_reader_slice brc k r) = ucast (tail brc) - ucast r"
  by (simp add: brdct_reader_slice_def Let_def)


lemma writer_slice_eq:
  "brdct_writer_slice brc k =
     (let new = (if nreaders brc = 0 \<or> ncycled brc < nreaders brc then brc
                 else brc\<lparr>ncycled := 0, hstate := 0\<rparr>);
          t = (ucast (tail new) :: 64 word);
          hd = (t AND - (2 ^ (k - 1))) - 2 ^ (k - 1) * ucast (hstate new);
          c1 = (if drop_bit k t = drop_bit k hd then hd AND (2 ^ k - 1) else 0);
          c0 = 2 ^ k - (t - hd) - c1
      in (new, \<lparr>idx0 = t AND (2 ^ k - 1), idx1 = 0,
                 cnt0 = (if 0 < c1 then c0 else if 0 < c0 then c0 - 1 else c0),
                 cnt1 = (if 0 < c1 then c1 - 1 else c1),
                 len = 2 ^ k - (t - hd) - 1\<rparr>))"
  by (simp add: brdct_writer_slice_def Let_def)

lemma reader_slice_eq:
  "brdct_reader_slice brc k r =
     (let t = (ucast (tail brc) :: 64 word);
          rr = (ucast r :: 64 word);
          c1 = (if drop_bit k t \<noteq> drop_bit k rr then t AND (2 ^ k - 1) else 0)
      in \<lparr>idx0 = rr AND (2 ^ k - 1), idx1 = 0, cnt0 = t - rr - c1, cnt1 = c1, len = t - rr\<rparr>)"
  by (simp add: brdct_reader_slice_def Let_def ucast_drop_bit_eq)

lemma head_distance:
  fixes t :: "64 word" and hs :: "1 word"
  assumes "1 \<le> k" "k \<le> 63"
  shows "unat (t - ((t AND - (2 ^ (k - 1))) - 2 ^ (k - 1) * ucast hs)) =
         unat t mod 2 ^ (k - 1) + 2 ^ (k - 1) * unat hs"
proof -
  have e: "t - ((t AND - (2 ^ (k - 1))) - 2 ^ (k - 1) * ucast hs) =
        (t AND (2 ^ (k - 1) - 1)) + 2 ^ (k - 1) * ucast hs"
    by (simp add: and_neg_pow2)
  have k1: "k - 1 < LENGTH(64)" using assms by simp
  have h: "unat (2 ^ (k - 1) * ucast hs :: 64 word) = 2 ^ (k - 1) * unat hs"
    using hstate_cases[of hs] unat_pow2_word[OF k1] by auto
  have "unat t mod 2 ^ (k - 1) < 2 ^ (k - 1)" by simp
  moreover have "unat hs \<le> 1" using hstate_cases[of hs] by auto
  then have "2 ^ (k - 1) * unat hs \<le> (2::nat) ^ (k - 1)" by simp
  moreover have "(2::nat) ^ (k - 1) + 2 ^ (k - 1) = 2 ^ k" using assms(1)
    by (metis mult_2 power_eq_if not_one_le_zero)
  moreover have "(2::nat) ^ k < 2 ^ 64"
    by (rule power_strict_increasing) (use assms(2) in auto)
  ultimately have "unat t mod 2 ^ (k - 1) + 2 ^ (k - 1) * unat hs < 2 ^ 64"
    by linarith
  then have "unat (t AND (2 ^ (k - 1) - 1)) + unat (2 ^ (k - 1) * ucast hs :: 64 word)
        < 2 ^ LENGTH(64)"
    unfolding h unat_and_low_mask by simp
  then have "unat ((t AND (2 ^ (k - 1) - 1)) + 2 ^ (k - 1) * ucast hs) =
        unat (t AND (2 ^ (k - 1) - 1)) + unat (2 ^ (k - 1) * ucast hs :: 64 word)"
    by (simp only: unat_add_lem)
  then show ?thesis unfolding e h unat_and_low_mask .
qed


lemma reader_slice_bounds:
  assumes k: "k < 64" and d: "unat (ucast (tail brc) - ucast r :: 64 word) < 2 ^ k"
  shows "unat (idx0 (brdct_reader_slice brc k r)) + unat (cnt0 (brdct_reader_slice brc k r)) \<le> 2 ^ k"
    and "unat (cnt1 (brdct_reader_slice brc k r)) < 2 ^ k"
    and "len (brdct_reader_slice brc k r) =
           cnt0 (brdct_reader_slice brc k r) + cnt1 (brdct_reader_slice brc k r)"
    and "unat (len (brdct_reader_slice brc k r)) \<le> 2 ^ k - 1"
    and "idx1 (brdct_reader_slice brc k r) = 0"
proof -
  define rr where "rr = (ucast r :: 64 word)"
  define dd where "dd = (ucast (tail brc) :: 64 word) - rr"
  have t: "(ucast (tail brc) :: 64 word) = rr + dd" by (simp add: dd_def)
  have k': "k < LENGTH(64)" using k by simp
  have dl: "unat dd < 2 ^ k" using d by (simp add: dd_def rr_def)
  then have dle: "unat dd \<le> 2 ^ k" by simp
  note sb = same_block_iff[OF k' dle, of rr]
  note lb = queue_low_bits[OF k' dle, of rr]
  have a: "unat rr mod 2 ^ k < 2 ^ k" by simp
  show "len (brdct_reader_slice brc k r) =
           cnt0 (brdct_reader_slice brc k r) + cnt1 (brdct_reader_slice brc k r)"
    by (simp add: reader_slice_eq Let_def)
  show "unat (len (brdct_reader_slice brc k r)) \<le> 2 ^ k - 1"
    using dl by (simp add: reader_slice_eq Let_def dd_def rr_def)
  show "idx1 (brdct_reader_slice brc k r) = 0"
    by (simp add: reader_slice_eq Let_def)
  have "unat (idx0 (brdct_reader_slice brc k r)) + unat (cnt0 (brdct_reader_slice brc k r)) \<le> 2 ^ k
      \<and> unat (cnt1 (brdct_reader_slice brc k r)) < 2 ^ k"
  proof (cases "unat rr mod 2 ^ k + unat dd < 2 ^ k")
    case True
    then have e: "drop_bit k (rr + dd) = drop_bit k rr" using sb by simp
    have s: "brdct_reader_slice brc k r =
        \<lparr>idx0 = rr AND (2 ^ k - 1), idx1 = 0, cnt0 = dd, cnt1 = 0, len = dd\<rparr>"
      unfolding reader_slice_eq Let_def rr_def[symmetric] t using e by simp
    show ?thesis
      unfolding s using True by (simp add: unat_and_low_mask)
  next
    case False
    then have e: "drop_bit k (rr + dd) \<noteq> drop_bit k rr" using sb by simp
    have s: "brdct_reader_slice brc k r =
        \<lparr>idx0 = rr AND (2 ^ k - 1), idx1 = 0, cnt0 = dd - ((rr + dd) AND (2 ^ k - 1)),
         cnt1 = (rr + dd) AND (2 ^ k - 1), len = dd\<rparr>"
      unfolding reader_slice_eq Let_def rr_def[symmetric] t using e by simp
    have u: "unat ((rr + dd) AND (2 ^ k - 1)) = unat rr mod 2 ^ k + unat dd - 2 ^ k"
      using lb False by simp
    then have "unat ((rr + dd) AND (2 ^ k - 1)) \<le> unat dd" using a by linarith
    then have "(rr + dd) AND (2 ^ k - 1) \<le> dd" by (simp only: word_le_nat_alt)
    then have c: "unat (dd - ((rr + dd) AND (2 ^ k - 1))) =
        unat dd - (unat rr mod 2 ^ k + unat dd - 2 ^ k)"
      using u by (simp add: unat_sub)
    have "unat (rr AND (2 ^ k - 1)) + unat (dd - ((rr + dd) AND (2 ^ k - 1))) \<le> 2 ^ k"
      unfolding c unat_and_low_mask using False a by linarith
    moreover have "unat ((rr + dd) AND (2 ^ k - 1)) < 2 ^ k"
      unfolding u using a dl by linarith
    ultimately show ?thesis unfolding s by simp
  qed
  then show "unat (idx0 (brdct_reader_slice brc k r)) + unat (cnt0 (brdct_reader_slice brc k r)) \<le> 2 ^ k"
   and "unat (cnt1 (brdct_reader_slice brc k r)) < 2 ^ k"
    by simp_all
qed


lemma pow2_double: "1 \<le> k \<Longrightarrow> (2::nat) ^ (k - 1) + 2 ^ (k - 1) = 2 ^ k"
  by (metis mult_2 power_eq_if not_one_le_zero)

lemma writer_slice_bounds:
  assumes k1: "1 \<le> k" and k63: "k \<le> 63"
  shows "unat (len (snd (brdct_writer_slice brc k))) =
           2 ^ k - 1 - (unat (tail (fst (brdct_writer_slice brc k))) mod 2 ^ (k - 1) +
                        2 ^ (k - 1) * unat (hstate (fst (brdct_writer_slice brc k))))"
    and "len (snd (brdct_writer_slice brc k)) =
           cnt0 (snd (brdct_writer_slice brc k)) + cnt1 (snd (brdct_writer_slice brc k))"
    and "unat (idx0 (snd (brdct_writer_slice brc k))) + unat (cnt0 (snd (brdct_writer_slice brc k)))
           \<le> 2 ^ k"
    and "unat (cnt1 (snd (brdct_writer_slice brc k))) < 2 ^ k"
    and "idx1 (snd (brdct_writer_slice brc k)) = 0"
proof -
  define new where "new = fst (brdct_writer_slice brc k)"
  define t where "t = (ucast (tail new) :: 64 word)"
  define hd where "hd = (t AND - (2 ^ (k - 1))) - 2 ^ (k - 1) * ucast (hstate new)"
  define dd where "dd = t - hd"
  define c1 where "c1 = (if drop_bit k t = drop_bit k hd then hd AND (2 ^ k - 1) else 0)"
  define c0 where "c0 = 2 ^ k - dd - c1"
  have n: "new = (if nreaders brc = 0 \<or> ncycled brc < nreaders brc then brc
                 else brc\<lparr>ncycled := 0, hstate := 0\<rparr>)"
    by (simp add: new_def writer_slice_eq Let_def)
  have s: "snd (brdct_writer_slice brc k) =
      \<lparr>idx0 = t AND (2 ^ k - 1), idx1 = 0,
       cnt0 = (if 0 < c1 then c0 else if 0 < c0 then c0 - 1 else c0),
       cnt1 = (if 0 < c1 then c1 - 1 else c1),
       len = 2 ^ k - dd - 1\<rparr>"
    unfolding c0_def c1_def dd_def hd_def t_def n
    by (simp add: writer_slice_eq Let_def)
  have k': "k < LENGTH(64)" using k63 by simp
  have tn: "unat t = unat (tail new)" by (simp add: t_def unat_ucast_up)
  have hs: "unat (hstate new) \<le> 1" using hstate_cases[of "hstate new"] by auto
  have d: "unat dd = unat (tail new) mod 2 ^ (k - 1) + 2 ^ (k - 1) * unat (hstate new)"
    unfolding dd_def hd_def using head_distance[OF k1 k63, of t "hstate new"] tn by simp
  have "unat (tail new) mod 2 ^ (k - 1) < 2 ^ (k - 1)" by simp
  moreover have "2 ^ (k - 1) * unat (hstate new) \<le> (2::nat) ^ (k - 1)" using hs by simp
  ultimately have dl: "unat dd < 2 ^ k" unfolding d using pow2_double[OF k1] by linarith
  then have dle: "unat dd \<le> 2 ^ k" by simp
  have tt: "t = hd + dd" by (simp add: dd_def)
  note sb = same_block_iff[OF k' dle, of hd]
  note lb = queue_low_bits[OF k' dle, of hd]
  have a: "unat hd mod 2 ^ k < 2 ^ k" by simp
  have p: "unat (2 ^ k :: 64 word) = 2 ^ k" by (rule unat_pow2_word[OF k'])
  have "dd \<le> 2 ^ k" using dle p by (simp add: word_le_nat_alt)
  then have cd: "unat (2 ^ k - dd :: 64 word) = 2 ^ k - unat dd" using p by (simp add: unat_sub)
  have "1 \<le> 2 ^ k - dd" unfolding word_le_nat_alt cd using dl by simp
  then have l: "unat (2 ^ k - dd - 1) = 2 ^ k - unat dd - 1" using cd by (simp add: unat_sub)
  show "unat (len (snd (brdct_writer_slice brc k))) =
           2 ^ k - 1 - (unat (tail (fst (brdct_writer_slice brc k))) mod 2 ^ (k - 1) +
                        2 ^ (k - 1) * unat (hstate (fst (brdct_writer_slice brc k))))"
    unfolding s new_def[symmetric] using l d by simp
  show "idx1 (snd (brdct_writer_slice brc k)) = 0" unfolding s by simp
  have c1u: "unat c1 = (if unat hd mod 2 ^ k + unat dd < 2 ^ k then unat hd mod 2 ^ k else 0)"
    unfolding c1_def tt sb by (simp add: unat_and_low_mask)
  have "unat c1 \<le> unat (2 ^ k - dd)" unfolding c1u cd by (simp add: less_imp_le less_diff_conv)
  then have "c1 \<le> 2 ^ k - dd" by (simp only: word_le_nat_alt)
  then have c0u: "unat c0 = 2 ^ k - unat dd - unat c1" unfolding c0_def using cd by (simp add: unat_sub)
  have c0p: "0 < unat c0" unfolding c0u c1u using dl by (simp split: if_splits)
  then have c0w: "0 < c0" by (simp add: word_less_nat_alt)
  then have c0m: "unat (c0 - 1) = unat c0 - 1" by (simp add: unat_minus_one)
  have iu: "unat (t AND (2 ^ k - 1)) =
      (if unat hd mod 2 ^ k + unat dd < 2 ^ k then unat hd mod 2 ^ k + unat dd
       else unat hd mod 2 ^ k + unat dd - 2 ^ k)"
    unfolding tt by (rule lb)
  show "len (snd (brdct_writer_slice brc k)) =
           cnt0 (snd (brdct_writer_slice brc k)) + cnt1 (snd (brdct_writer_slice brc k))"
    unfolding s using c0w by (simp add: c0_def)
  show "unat (cnt1 (snd (brdct_writer_slice brc k))) < 2 ^ k"
  proof (cases "0 < c1")
    case True
    then have "unat (c1 - 1) = unat c1 - 1" by (simp add: unat_minus_one)
    then show ?thesis unfolding s using True a c1u by (simp split: if_splits)
  next
    case False
    then have "unat c1 = 0" by (simp add: word_less_nat_alt)
    then show ?thesis unfolding s using False by simp
  qed
  show "unat (idx0 (snd (brdct_writer_slice brc k))) + unat (cnt0 (snd (brdct_writer_slice brc k)))
           \<le> 2 ^ k"
  proof (cases "0 < c1")
    case True
    then have "0 < unat c1" by (simp add: word_less_nat_alt)
    then have "unat hd mod 2 ^ k + unat dd < 2 ^ k" using c1u by (simp split: if_splits)
    then have "unat (t AND (2 ^ k - 1)) + unat c0 \<le> 2 ^ k"
      unfolding iu c0u c1u by simp
    then show ?thesis unfolding s using True by simp
  next
    case False
    then have z: "unat c1 = 0" by (simp add: word_less_nat_alt)
    have az: "unat hd mod 2 ^ k = 0" if "unat hd mod 2 ^ k + unat dd < 2 ^ k"
      using z c1u that by simp
    have "unat (t AND (2 ^ k - 1)) + unat (c0 - 1) \<le> 2 ^ k"
    proof (cases "unat hd mod 2 ^ k + unat dd < 2 ^ k")
      case True
      then show ?thesis unfolding iu c0m c0u z using az[OF True] dl by simp
    next
      case False
      then have "unat (t AND (2 ^ k - 1)) = unat hd mod 2 ^ k + unat dd - 2 ^ k"
        using iu by simp
      moreover have "unat (c0 - 1) = 2 ^ k - unat dd - 1" using c0m c0u z by simp
      ultimately show ?thesis using a dl by linarith
    qed
    then show ?thesis unfolding s using False c0w by simp
  qed
qed

subsection \<open>The claims about single operations\<close>

text \<open>
  Claim C3, as stated, fails.  With no reader attached and \<open>hstate = 1\<close>,
  \<^verbatim>\<open>brdct_writer_slice\<close> takes the \<^verbatim>\<open>nreaders == 0\<close> exit of its loop and leaves
  \<open>hstate\<close> at 1: here with capacity 8 and \<open>tail = 4\<close>.
\<close>

theorem writer_slice_no_reader_counterexample:
  "nreaders \<lparr>tail = 4, nreaders = 0, ncycled = 0, hstate = 1\<rparr> = 0
   \<and> hstate \<lparr>tail = 4, nreaders = 0, ncycled = 0, hstate = 1\<rparr> = 1
   \<and> hstate (fst (brdct_writer_slice \<lparr>tail = 4, nreaders = 0, ncycled = 0, hstate = 1\<rparr> 3)) = 1"
  by (simp add: brdct_writer_slice_def Let_def)

text \<open>
  Claim C3, amended.  \<^verbatim>\<open>brdct_writer_slice\<close> leaves the state word unchanged when
  \<open>nreaders = 0\<close> (so \<open>hstate\<close> stays 1 if it was 1) and when \<open>ncycled < nreaders\<close>;
  it resets \<open>ncycled\<close> and \<open>hstate\<close> to 0 exactly when \<open>nreaders > 0\<close> and
  \<open>ncycled \<ge> nreaders\<close>.
\<close>

theorem writer_slice_reset:
  "(nreaders brc = 0 \<longrightarrow> fst (brdct_writer_slice brc k) = brc)
   \<and> (nreaders brc \<noteq> 0 \<and> nreaders brc \<le> ncycled brc \<longrightarrow>
        fst (brdct_writer_slice brc k) = brc\<lparr>ncycled := 0, hstate := 0\<rparr>)
   \<and> (ncycled brc < nreaders brc \<longrightarrow> fst (brdct_writer_slice brc k) = brc)"
  by (auto simp add: brdct_writer_slice_def Let_def)

theorem writer_slice_reset_witness:
  "nreaders \<lparr>tail = 4, nreaders = 0, ncycled = 0, hstate = 1\<rparr> = 0
   \<and> fst (brdct_writer_slice \<lparr>tail = 4, nreaders = 0, ncycled = 0, hstate = 1\<rparr> 3)
       = \<lparr>tail = 4, nreaders = 0, ncycled = 0, hstate = 1\<rparr>
   \<and> nreaders \<lparr>tail = 5, nreaders = 2, ncycled = 2, hstate = 1\<rparr> \<noteq> 0
   \<and> nreaders \<lparr>tail = 5, nreaders = 2, ncycled = 2, hstate = 1\<rparr>
       \<le> ncycled \<lparr>tail = 5, nreaders = 2, ncycled = 2, hstate = 1\<rparr>
   \<and> fst (brdct_writer_slice \<lparr>tail = 5, nreaders = 2, ncycled = 2, hstate = 1\<rparr> 3)
       = \<lparr>tail = 5, nreaders = 2, ncycled = 0, hstate = 0\<rparr>
   \<and> ncycled \<lparr>tail = 5, nreaders = 2, ncycled = 1, hstate = 1\<rparr>
       < nreaders \<lparr>tail = 5, nreaders = 2, ncycled = 1, hstate = 1\<rparr>
   \<and> fst (brdct_writer_slice \<lparr>tail = 5, nreaders = 2, ncycled = 1, hstate = 1\<rparr> 3)
       = \<lparr>tail = 5, nreaders = 2, ncycled = 1, hstate = 1\<rparr>"
  using writer_slice_reset[of "\<lparr>tail = 4, nreaders = 0, ncycled = 0, hstate = 1\<rparr>" 3]
    writer_slice_reset[of "\<lparr>tail = 5, nreaders = 2, ncycled = 2, hstate = 1\<rparr>" 3]
    writer_slice_reset[of "\<lparr>tail = 5, nreaders = 2, ncycled = 1, hstate = 1\<rparr>" 3]
  by simp




text \<open>
  Claim C7 on the narrow variant.  The claim puts the ceiling at \<open>2 ^ 7 - 1 = 127\<close>, the
  largest value of the 7-bit field.  The code compares \<open>nreaders\<close> with
  \<^verbatim>\<open>((1 << 15) - 1) >> BRDCT_RESIZE\<close>, which is 16383 there, a value the field never
  holds: the narrow \<^verbatim>\<open>brdct_attach_reader\<close> never fails, and at \<open>nreaders = 127\<close> it
  returns 0 and wraps the field to 0.
\<close>

theorem attach_reader_narrow_never_fails:
  "fst (brdct_attach_reader_narrow brc k r) = 0
   \<and> brdct_attach_reader_narrow \<lparr>tail_n = 0, nreaders_n = 127, ncycled_n = 0, hstate_n = 0\<rparr> 3 0
       = (0, \<lparr>tail_n = 0, nreaders_n = 0, ncycled_n = 0, hstate_n = 0\<rparr>, 0)"
proof -
  have "uint (nreaders_n brc) < 2 ^ 7" using uint_bounded[of "nreaders_n brc"] by simp
  then have "uint (nreaders_n brc) \<noteq> nreaders_limit 1" by (simp add: nreaders_limit_def)
  then have "fst (brdct_attach_reader_narrow brc k r) = 0"
    by (simp add: brdct_attach_reader_narrow_def Let_def)
  moreover have "brdct_attach_reader_narrow \<lparr>tail_n = 0, nreaders_n = 127, ncycled_n = 0, hstate_n = 0\<rparr> 3 0
       = (0, \<lparr>tail_n = 0, nreaders_n = 0, ncycled_n = 0, hstate_n = 0\<rparr>, 0)"
    by (simp add: brdct_attach_reader_narrow_def Let_def nreaders_limit_def)
  ultimately show ?thesis by simp
qed

text \<open>
  The contract of \<^verbatim>\<open>brdct_attach_reader\<close> in the wide variant, for
  \<open>1 \<le> k \<le> 33\<close>: the call returns \<open>- 1\<close> exactly when \<open>nreaders = 32767\<close>, and then changes neither
  the state word nor \<^verbatim>\<open>*r\<close>; otherwise it returns 0, adds one to \<open>nreaders\<close> without
  wrapping, leaves \<open>tail\<close>, \<open>ncycled\<close> and \<open>hstate\<close> alone and sets \<^verbatim>\<open>*r\<close> to the
  derived head \<open>(tail & - H) - H * hstate\<close> with \<open>H = 2 ^ (k - 1)\<close>, truncated to the 32
  bits of \<^verbatim>\<open>Reader\<close>; the truncation changes the value once the derived head is
  \<open>2 ^ 32\<close> or more.
\<close>

theorem attach_reader_wide_contract:
  assumes "1 \<le> k" and "k \<le> 33"
  shows "(fst (brdct_attach_reader brc k r) = - 1) = (unat (nreaders brc) = 32767)
   \<and> (fst (brdct_attach_reader brc k r) = 0) = (unat (nreaders brc) \<noteq> 32767)
   \<and> (unat (nreaders brc) = 32767 \<longrightarrow> brdct_attach_reader brc k r = (- 1, brc, r))
   \<and> (unat (nreaders brc) \<noteq> 32767 \<longrightarrow>
        brdct_attach_reader brc k r =
          (0, brc\<lparr>nreaders := nreaders brc + 1\<rparr>,
           ucast ((ucast (tail brc) AND - (2 ^ (k - 1))) - 2 ^ (k - 1) * ucast (hstate brc) :: brdct_t))
        \<and> unat (nreaders brc + 1) = unat (nreaders brc) + 1)"
proof -
  have l: "nreaders_limit 0 = 32767" by (simp add: nreaders_limit_def)
  have u: "(uint (nreaders brc) = 32767) = (unat (nreaders brc) = 32767)"
    unfolding uint_nat by linarith
  have b: "unat (nreaders brc) < 2 ^ 15" using unsigned_less[of "nreaders brc", where 'a = nat] by simp
  have "unat (nreaders brc + 1) = unat (nreaders brc) + 1" if "unat (nreaders brc) \<noteq> 32767"
  proof -
    have "unat (nreaders brc) + unat (1 :: 15 word) < 2 ^ LENGTH(15)" using b that by simp
    then show ?thesis by (simp only: unat_add_lem) simp
  qed
  then show ?thesis
    by (simp add: brdct_attach_reader_def Let_def l u)
qed

theorem attach_reader_wide_contract_witness:
  "(1::nat) \<le> 3 \<and> (3::nat) \<le> 33
   \<and> unat (nreaders \<lparr>tail = 5, nreaders = 32767, ncycled = 0, hstate = 1\<rparr>) = 32767
   \<and> brdct_attach_reader \<lparr>tail = 5, nreaders = 32767, ncycled = 0, hstate = 1\<rparr> 3 7
       = (- 1, \<lparr>tail = 5, nreaders = 32767, ncycled = 0, hstate = 1\<rparr>, 7)
   \<and> unat (nreaders \<lparr>tail = 5, nreaders = 1, ncycled = 0, hstate = 1\<rparr>) \<noteq> 32767
   \<and> brdct_attach_reader \<lparr>tail = 5, nreaders = 1, ncycled = 0, hstate = 1\<rparr> 3 7
       = (0, \<lparr>tail = 5, nreaders = 2, ncycled = 0, hstate = 1\<rparr>, 0)"
  using attach_reader_wide_contract[where k = 3 and r = 7
        and brc = "\<lparr>tail = 5, nreaders = 32767, ncycled = 0, hstate = 1\<rparr>"]
    attach_reader_wide_contract[where k = 3 and r = 7
        and brc = "\<lparr>tail = 5, nreaders = 1, ncycled = 0, hstate = 1\<rparr>"]
  by simp

text \<open>
  Claim C9 (width mismatch of the reader counter).  \<open>tail\<close> has 33 bits and
  \<^verbatim>\<open>Reader\<close> 32, and \<^verbatim>\<open>brdct_reader_slice\<close> takes \<open>tail - *r\<close> in \<^verbatim>\<open>brdct_t\<close>.  For every
  \<open>tail\<close> from \<open>2 ^ 32\<close> on and a reader that has consumed everything, whose counter is
  therefore \<open>tail mod 2 ^ 32\<close>, the slice has \<open>len = 2 ^ 32\<close> where nothing is left to
  read, for every capacity exponent.  While \<open>tail < 2 ^ 32\<close> and the reader is not past
  it, \<open>len\<close> is the true distance \<open>tail - r\<close>.
\<close>

theorem reader_width_mismatch:
  "(2 ^ 32 \<le> unat (tail brc) \<and> r = ucast (tail brc) \<longrightarrow>
      len (brdct_reader_slice brc k r) = 2 ^ 32)
   \<and> (unat (tail brc) < 2 ^ 32 \<and> unat r \<le> unat (tail brc) \<longrightarrow>
      unat (len (brdct_reader_slice brc k r)) = unat (tail brc) - unat r)"
proof -
  have b: "unat (tail brc) < 2 ^ 33" using unsigned_less[of "tail brc", where 'a = nat] by simp
  have t: "unat (ucast (tail brc) :: 64 word) = unat (tail brc)" by (simp add: unat_ucast_up)
  have 1: "len (brdct_reader_slice brc k r) = 2 ^ 32"
    if ge: "2 ^ 32 \<le> unat (tail brc)" and rt: "r = ucast (tail brc)"
  proof -
    have r: "unat (ucast r :: 64 word) = unat (tail brc) - 2 ^ 32"
    proof -
      have "unat (ucast r :: 64 word) = unat (tail brc) mod 2 ^ 32"
        by (simp add: rt unat_ucast_up unat_ucast_mod)
      also have "\<dots> = (unat (tail brc) - 2 ^ 32) mod 2 ^ 32"
        using ge by (simp add: le_mod_geq)
      also have "\<dots> = unat (tail brc) - 2 ^ 32" using b by simp
      finally show ?thesis .
    qed
    have "(ucast r :: 64 word) \<le> ucast (tail brc)" unfolding word_le_nat_alt t r by simp
    then have "unat (ucast (tail brc) - ucast r :: 64 word) = 2 ^ 32"
      using ge by (simp add: unat_sub t r)
    then have "ucast (tail brc) - ucast r = (2 ^ 32 :: 64 word)"
      by (simp add: word_unat_eq_iff)
    then show ?thesis by (simp only: reader_slice_len)
  qed
  have 2: "unat (len (brdct_reader_slice brc k r)) = unat (tail brc) - unat r"
    if "unat r \<le> unat (tail brc)"
  proof -
    have r: "unat (ucast r :: 64 word) = unat r" by (simp add: unat_ucast_up)
    have "(ucast r :: 64 word) \<le> ucast (tail brc)" unfolding word_le_nat_alt t r using that .
    then show ?thesis by (simp add: reader_slice_len unat_sub t r)
  qed
  show ?thesis using 1 2 by blast
qed

theorem reader_width_mismatch_witness:
  "(2::nat) ^ 32 \<le> unat (tail \<lparr>tail = 2 ^ 32 + 5, nreaders = 1, ncycled = 0, hstate = 0\<rparr>)
   \<and> (5 :: Reader) = ucast (tail \<lparr>tail = 2 ^ 32 + 5, nreaders = 1, ncycled = 0, hstate = 0\<rparr>)
   \<and> len (brdct_reader_slice \<lparr>tail = 2 ^ 32 + 5, nreaders = 1, ncycled = 0, hstate = 0\<rparr> 3 5) = 2 ^ 32
   \<and> unat (tail \<lparr>tail = 13, nreaders = 1, ncycled = 0, hstate = 0\<rparr>) < 2 ^ 32
   \<and> unat (6 :: Reader) \<le> unat (tail \<lparr>tail = 13, nreaders = 1, ncycled = 0, hstate = 0\<rparr>)
   \<and> unat (len (brdct_reader_slice \<lparr>tail = 13, nreaders = 1, ncycled = 0, hstate = 0\<rparr> 3 6)) = 7"
  using reader_width_mismatch[of "\<lparr>tail = 2 ^ 32 + 5, nreaders = 1, ncycled = 0, hstate = 0\<rparr>" 5 3]
    reader_width_mismatch[of "\<lparr>tail = 13, nreaders = 1, ncycled = 0, hstate = 0\<rparr>" 6 3]
  by simp

text \<open>
  Where the slices stay inside the payload array.  \<open>C = 2 ^ k\<close> with
  \<open>1 \<le> k \<le> 33\<close>.  For \<^verbatim>\<open>brdct_reader_slice\<close>, with \<open>k \<le> 31\<close> so that the shift of the
  32-bit \<^verbatim>\<open>Reader\<close> is defined, and for a reader counter that has not wrapped: if
  \<open>r \<le> tail\<close> and \<open>tail - r \<le> C - 1\<close> on the numbers, then \<open>idx[0] + cnt[0] \<le> C\<close>,
  \<open>cnt[1] < C\<close> and \<open>len = cnt[0] + cnt[1] \<le> C - 1\<close>.  For \<^verbatim>\<open>brdct_writer_slice\<close> the
  distance from the derived head to \<open>tail\<close> is at most \<open>C - 1\<close> in every state, and
  the returned slice satisfies the same three bounds.  The second segment starts
  at index 0 in both.  A reader whose counter has wrapped is not covered.
\<close>

theorem slices_in_bounds_unwrapped:
  assumes "1 \<le> k" and "k \<le> 33"
  shows "(k \<le> 31 \<and> unat r \<le> unat (tail brc) \<and> unat (tail brc) - unat r \<le> 2 ^ k - 1 \<longrightarrow>
            unat (idx0 (brdct_reader_slice brc k r)) + unat (cnt0 (brdct_reader_slice brc k r)) \<le> 2 ^ k
          \<and> idx1 (brdct_reader_slice brc k r) = 0
          \<and> unat (cnt1 (brdct_reader_slice brc k r)) < 2 ^ k
          \<and> len (brdct_reader_slice brc k r) =
              cnt0 (brdct_reader_slice brc k r) + cnt1 (brdct_reader_slice brc k r)
          \<and> unat (len (brdct_reader_slice brc k r)) \<le> 2 ^ k - 1)
       \<and> unat ((ucast (tail (fst (brdct_writer_slice brc k))) :: brdct_t) -
                ((ucast (tail (fst (brdct_writer_slice brc k))) AND - (2 ^ (k - 1))) -
                 2 ^ (k - 1) * ucast (hstate (fst (brdct_writer_slice brc k))))) \<le> 2 ^ k - 1
       \<and> unat (idx0 (snd (brdct_writer_slice brc k))) + unat (cnt0 (snd (brdct_writer_slice brc k)))
            \<le> 2 ^ k
       \<and> idx1 (snd (brdct_writer_slice brc k)) = 0
       \<and> unat (cnt1 (snd (brdct_writer_slice brc k))) < 2 ^ k
       \<and> len (snd (brdct_writer_slice brc k)) =
            cnt0 (snd (brdct_writer_slice brc k)) + cnt1 (snd (brdct_writer_slice brc k))
       \<and> unat (len (snd (brdct_writer_slice brc k))) \<le> 2 ^ k - 1"
proof -
  have k63: "k \<le> 63" using assms(2) by simp
  have k64: "k < 64" using assms(2) by simp
  note w = writer_slice_bounds[OF assms(1) k63, of brc]
  define new where "new = fst (brdct_writer_slice brc k)"
  have hs: "unat (hstate new) \<le> 1" using hstate_cases[of "hstate new"] by auto
  have tn: "unat (ucast (tail new) :: 64 word) = unat (tail new)" by (simp add: unat_ucast_up)
  have "unat (tail new) mod 2 ^ (k - 1) < 2 ^ (k - 1)" by simp
  moreover have "2 ^ (k - 1) * unat (hstate new) \<le> (2::nat) ^ (k - 1)" using hs by simp
  ultimately have "unat (tail new) mod 2 ^ (k - 1) + 2 ^ (k - 1) * unat (hstate new) \<le> 2 ^ k - 1"
    using pow2_double[OF assms(1)] by linarith
  then have hd: "unat ((ucast (tail new) :: brdct_t) -
                ((ucast (tail new) AND - (2 ^ (k - 1))) - 2 ^ (k - 1) * ucast (hstate new)))
             \<le> 2 ^ k - 1"
    using head_distance[OF assms(1) k63, of "ucast (tail new)" "hstate new"] tn by simp
  have r: "unat (idx0 (brdct_reader_slice brc k r)) + unat (cnt0 (brdct_reader_slice brc k r)) \<le> 2 ^ k
          \<and> idx1 (brdct_reader_slice brc k r) = 0
          \<and> unat (cnt1 (brdct_reader_slice brc k r)) < 2 ^ k
          \<and> len (brdct_reader_slice brc k r) =
              cnt0 (brdct_reader_slice brc k r) + cnt1 (brdct_reader_slice brc k r)
          \<and> unat (len (brdct_reader_slice brc k r)) \<le> 2 ^ k - 1"
    if le: "unat r \<le> unat (tail brc)" and di: "unat (tail brc) - unat r \<le> 2 ^ k - 1"
  proof -
    have t64: "unat (ucast (tail brc) :: 64 word) = unat (tail brc)" by (simp add: unat_ucast_up)
    have r64: "unat (ucast r :: 64 word) = unat r" by (simp add: unat_ucast_up)
    have "(ucast r :: 64 word) \<le> ucast (tail brc)" unfolding word_le_nat_alt t64 r64 by (rule le)
    then have e: "unat ((ucast (tail brc) :: 64 word) - ucast r) = unat (tail brc) - unat r"
      by (simp add: unat_sub t64 r64)
    have "(0::nat) < 2 ^ k" by simp
    then have "unat ((ucast (tail brc) :: 64 word) - ucast r) < 2 ^ k"
      unfolding e using di by linarith
    from reader_slice_bounds[OF k64 this] show ?thesis by simp
  qed
  have "unat (len (snd (brdct_writer_slice brc k))) \<le> 2 ^ k - 1" using w(1) by simp
  then show ?thesis using r w(2-5) hd unfolding new_def by blast
qed

theorem slices_in_bounds_unwrapped_witness:
  "(1::nat) \<le> 3 \<and> (3::nat) \<le> 33 \<and> (3::nat) \<le> 31
   \<and> unat (6 :: Reader) \<le> unat (tail \<lparr>tail = 13, nreaders = 1, ncycled = 0, hstate = 1\<rparr>)
   \<and> unat (tail \<lparr>tail = 13, nreaders = 1, ncycled = 0, hstate = 1\<rparr>) - unat (6 :: Reader)
       \<le> 2 ^ 3 - 1
   \<and> brdct_reader_slice \<lparr>tail = 13, nreaders = 1, ncycled = 0, hstate = 1\<rparr> 3 6
       = \<lparr>idx0 = 6, idx1 = 0, cnt0 = 2, cnt1 = 5, len = 7\<rparr>
   \<and> snd (brdct_writer_slice \<lparr>tail = 13, nreaders = 1, ncycled = 0, hstate = 1\<rparr> 3)
       = \<lparr>idx0 = 5, idx1 = 0, cnt0 = 2, cnt1 = 0, len = 2\<rparr>
   \<and> unat (idx0 (brdct_reader_slice \<lparr>tail = 13, nreaders = 1, ncycled = 0, hstate = 1\<rparr> 3 6))
       + unat (cnt0 (brdct_reader_slice \<lparr>tail = 13, nreaders = 1, ncycled = 0, hstate = 1\<rparr> 3 6))
       \<le> 2 ^ 3"
  using slices_in_bounds_unwrapped[where k = 3 and r = 6
      and brc = "\<lparr>tail = 13, nreaders = 1, ncycled = 0, hstate = 1\<rparr>"]
  by (simp add: brdct_reader_slice_def brdct_writer_slice_def Let_def)

subsection \<open>Reachable states past \<open>2 ^ 32\<close> produced elements\<close>

lemma run_wrap_trace:
  "run 31 wrap_trace system_zero =
     Some \<lparr>shared = \<lparr>tail = 5368709119, nreaders = 1, ncycled = 1, hstate = 1\<rparr>,
           readers = [Some (1073741823, None)], wslice = None\<rparr>"
  by (simp add: wrap_trace_def system_zero_def brdct_zero_def reader_at_def consume_def
      brdct_attach_reader_def brdct_writer_slice_def brdct_writer_commit_def
      brdct_reader_slice_def brdct_reader_commit_def nreaders_limit_def Let_def)

lemma run_append:
  "run k (xs @ ys) sys = (case run k xs sys of None \<Rightarrow> None | Some sys' \<Rightarrow> run k ys sys')"
  by (induction xs arbitrary: sys) (auto split: option.splits)

text \<open>
  Claim C1 fails on the code.  After \<open>wrap_trace\<close> the writer has produced
  \<open>5 * 2 ^ 30 - 1\<close> elements and the reader has consumed them all, so that its 32-bit
  counter has wrapped to \<open>2 ^ 30 - 1\<close>.  The next \<^verbatim>\<open>brdct_reader_slice\<close> returns
  \<open>len = 2 ^ 32\<close>; the reader commits one element of it, as the contract allows, and
  now stands one element past \<open>tail\<close>.  In the state reached, \<open>tail - r\<close> is not below
  \<open>C = 2 ^ 31\<close> whether it is taken modulo \<open>2 ^ 64\<close> (as the code does), modulo
  \<open>2 ^ 33\<close> (the width of \<open>tail\<close>) or modulo \<open>2 ^ 32\<close> (the width of \<^verbatim>\<open>Reader\<close>).
\<close>

theorem no_overwrite_fails_past_2_32:
  "run 31 (wrap_trace @ [ReaderSlice 0, ReaderCommit 0 1]) system_zero =
     Some \<lparr>shared = \<lparr>tail = 5368709119, nreaders = 1, ncycled = 2, hstate = 1\<rparr>,
           readers = [Some (1073741824, None)], wslice = None\<rparr>
   \<and> \<not> unat ((ucast (5368709119 :: 33 word) :: brdct_t) - ucast (1073741824 :: Reader)) < 2 ^ 31
   \<and> \<not> unat ((5368709119 :: 33 word) - ucast (1073741824 :: Reader)) < 2 ^ 31
   \<and> \<not> unat ((ucast (5368709119 :: 33 word) :: Reader) - 1073741824) < 2 ^ 31"
  by (simp add: run_append run_wrap_trace reader_at_def consume_def
      brdct_reader_slice_def brdct_reader_commit_def Let_def)

text \<open>
  Claim C2 fails on the code.  After \<open>wrap_trace\<close> the one reader has cycled
  (\<open>ncycled = nreaders = 1\<close>, \<open>hstate = 1\<close>), and its wrapped counter \<open>2 ^ 30 - 1\<close> lies
  in the writer's half-block modulo \<open>2 ^ 32\<close>.  \<^verbatim>\<open>brdct_detach_reader\<close> compares
  \<open>tail >> 30 = 4\<close> with \<open>r >> 30 = 0\<close> at full width, finds them different and does not
  decrement \<open>ncycled\<close>: the state word ends with \<open>ncycled = 1\<close> and \<open>nreaders = 0\<close>.
\<close>

theorem census_fails_past_2_32:
  "run 31 (wrap_trace @ [Detach 0]) system_zero =
     Some \<lparr>shared = \<lparr>tail = 5368709119, nreaders = 0, ncycled = 1, hstate = 1\<rparr>,
           readers = [None], wslice = None\<rparr>
   \<and> \<not> ncycled \<lparr>tail = 5368709119, nreaders = 0, ncycled = 1, hstate = 1\<rparr>
         \<le> nreaders \<lparr>tail = 5368709119, nreaders = 0, ncycled = 1, hstate = 1\<rparr>"
  by (simp add: run_append run_wrap_trace reader_at_def brdct_detach_reader_def Let_def)

text \<open>
  Claim C10 fails on the code.  The reader's invariant is a distance
  \<open>tail - r\<close> in \<open>[0, C - 1]\<close> for a 32-bit counter \<open>r\<close> and a 33-bit \<open>tail\<close>, so it
  is a distance modulo \<open>2 ^ 32\<close>.  With capacity 8, \<open>tail = 2 ^ 32 + 5\<close> and a reader
  that has consumed everything, \<open>r = 5\<close>, the distance is 0, and
  \<^verbatim>\<open>brdct_reader_slice\<close> returns \<open>idx[0] = 5\<close>, \<open>cnt[0] = 2 ^ 32 - 5\<close>, \<open>cnt[1] = 5\<close> and
  \<open>len = 2 ^ 32\<close>: the first segment ends far past the 8 cells.  Such a state is reached
  from the zero state: after \<open>wrap_trace\<close>, with capacity \<open>2 ^ 31\<close>, the reader is at
  \<open>tail\<close> modulo \<open>2 ^ 32\<close> and its next slice has \<open>len = 2 ^ 32\<close> and
  \<open>idx[0] + cnt[0] = 2 ^ 32\<close>.  In both states \<open>r \<le> tail\<close>.
\<close>

theorem reader_slice_out_of_bounds_past_2_32:
  "unat ((ucast (2 ^ 32 + 5 :: 33 word) :: Reader) - 5) \<le> 2 ^ 3 - 1
   \<and> brdct_reader_slice \<lparr>tail = 2 ^ 32 + 5, nreaders = 1, ncycled = 0, hstate = 0\<rparr> 3 5
       = \<lparr>idx0 = 5, idx1 = 0, cnt0 = 4294967291, cnt1 = 5, len = 4294967296\<rparr>
   \<and> \<not> unat (5 :: size_t) + unat (4294967291 :: size_t) \<le> 2 ^ 3
   \<and> \<not> unat (4294967296 :: size_t) \<le> 2 ^ 3 - 1
   \<and> run 31 (wrap_trace @ [ReaderSlice 0]) system_zero =
       Some \<lparr>shared = \<lparr>tail = 5368709119, nreaders = 1, ncycled = 1, hstate = 1\<rparr>,
             readers = [Some (1073741823,
               Some \<lparr>idx0 = 1073741823, idx1 = 0, cnt0 = 3221225473, cnt1 = 1073741823,
                     len = 4294967296\<rparr>)],
             wslice = None\<rparr>
   \<and> unat ((ucast (5368709119 :: 33 word) :: Reader) - 1073741823) \<le> 2 ^ 31 - 1
   \<and> \<not> unat (1073741823 :: size_t) + unat (3221225473 :: size_t) \<le> 2 ^ 31
   \<and> \<not> unat (4294967296 :: size_t) \<le> 2 ^ 31 - 1"
  by (simp add: run_append run_wrap_trace reader_at_def brdct_reader_slice_def Let_def)

section \<open>The broadcast queue below \<open>2 ^ 32\<close> produced elements\<close>

text \<open>
  The failures of the previous subsection need \<open>tail\<close> to pass \<open>2 ^ 32\<close>.  Below
  that, the reader counters do not wrap, and the back-pressure scheme keeps its
  invariants: each of the six operations preserves \<open>brdct_inv\<close>.
\<close>

lemma consume_count:
  "len s = cnt0 s + cnt1 s \<Longrightarrow>
   len (consume n s) - (cnt0 (consume n s) + cnt1 (consume n s)) = n"
  by (simp add: consume_def Let_def)

lemma unat_hstate: "unat (h :: 1 word) = (if h = 1 then 1 else 0)"
  using hstate_cases[of h] by auto

lemma head_word_nat:
  fixes t :: "33 word" and hs :: "1 word"
  assumes k1: "1 \<le> k" and k63: "k \<le> 63" and h: "hs = 1 \<longrightarrow> 2 ^ (k - 1) \<le> unat t"
  shows "unat ((ucast t AND - (2 ^ (k - 1))) - 2 ^ (k - 1) * ucast hs :: 64 word) =
         (unat t div 2 ^ (k - 1) - unat hs) * 2 ^ (k - 1)"
proof -
  define H :: nat where "H = 2 ^ (k - 1)"
  define w :: "64 word" where "w = ucast t"
  have Hp: "0 < H" by (simp add: H_def)
  have k': "k - 1 < LENGTH(64)" using k63 by simp
  have wt: "unat w = unat t" by (simp add: w_def unat_ucast_up)
  have m: "unat (w AND (2 ^ (k - 1) - 1)) = unat t mod H"
    by (simp add: unat_and_low_mask wt H_def)
  have "w AND (2 ^ (k - 1) - 1) \<le> w" unfolding word_le_nat_alt m wt by simp
  then have a: "unat (w - (w AND (2 ^ (k - 1) - 1))) = unat t - unat t mod H"
    using m wt by (simp add: unat_sub)
  have dm: "unat t - unat t mod H = unat t div H * H"
    by (simp add: minus_mod_eq_div_mult)
  have u: "unat (2 ^ (k - 1) * ucast hs :: 64 word) = H * unat hs"
    using hstate_cases[of hs] unat_pow2_word[OF k'] by (auto simp: H_def)
  have le: "H * unat hs \<le> unat t div H * H"
  proof (cases "hs = 1")
    case True
    then have "H \<le> unat t" using h by (simp add: H_def)
    then have "1 \<le> unat t div H" using Hp by (simp add: div_greater_zero_iff Suc_le_eq)
    then have "H * 1 \<le> unat t div H * H" by (metis mult.commute mult_le_mono1)
    then show ?thesis using True by simp
  next
    case False
    then show ?thesis by (simp add: unat_hstate)
  qed
  then have "2 ^ (k - 1) * ucast hs \<le> w - (w AND (2 ^ (k - 1) - 1))"
    unfolding word_le_nat_alt a u dm .
  then have "unat (w - (w AND (2 ^ (k - 1) - 1)) - 2 ^ (k - 1) * ucast hs) =
      unat t div H * H - H * unat hs"
    using a u dm by (simp add: unat_sub)
  also have "\<dots> = (unat t div H - unat hs) * H"
    by (simp add: diff_mult_distrib2 mult.commute)
  finally show ?thesis unfolding and_neg_pow2 w_def H_def .
qed

lemma sum_list_map_update:
  fixes f :: "'a \<Rightarrow> nat"
  shows "i < length xs \<Longrightarrow>
         sum_list (map f (xs[i := y])) + f (xs ! i) = sum_list (map f xs) + f y"
proof (induction xs arbitrary: i)
  case Nil
  then show ?case by simp
next
  case (Cons x xs)
  show ?case
  proof (cases i)
    case 0
    then show ?thesis by simp
  next
    case (Suc j)
    then have "j < length xs" using Cons.prems by simp
    from Cons.IH[OF this] show ?thesis using Suc by simp
  qed
qed

lemma sum_list_map_mono:
  fixes f g :: "'a \<Rightarrow> nat"
  shows "(\<And>c. f c \<le> g c) \<Longrightarrow> sum_list (map f xs) \<le> sum_list (map g xs)"
  by (induction xs) (auto simp: add_mono)

lemma sum_list_map_eq_pointwise:
  fixes f g :: "'a \<Rightarrow> nat"
  assumes "\<And>c. f c \<le> g c" and "sum_list (map f xs) = sum_list (map g xs)"
  shows "\<forall>c \<in> set xs. f c = g c"
  using assms(2)
proof (induction xs)
  case Nil
  then show ?case by simp
next
  case (Cons x xs)
  have 1: "f x \<le> g x" by (rule assms(1))
  have 2: "sum_list (map f xs) \<le> sum_list (map g xs)" by (rule sum_list_map_mono[OF assms(1)])
  from Cons.prems have "f x + sum_list (map f xs) = g x + sum_list (map g xs)" by simp
  with 1 2 have "f x = g x" "sum_list (map f xs) = sum_list (map g xs)" by linarith+
  with Cons.IH show ?case by simp
qed

lemma sum_list_map_zero:
  fixes f :: "'a \<Rightarrow> nat"
  shows "(\<forall>c \<in> set xs. f c = 0) \<Longrightarrow> sum_list (map f xs) = 0"
  by (induction xs) auto

lemma sum_list_map_elem:
  fixes f :: "'a \<Rightarrow> nat"
  shows "i < length xs \<Longrightarrow> f (xs ! i) \<le> sum_list (map f xs)"
proof (induction xs arbitrary: i)
  case Nil
  then show ?case by simp
next
  case (Cons x xs)
  show ?case
  proof (cases i)
    case 0
    then show ?thesis by simp
  next
    case (Suc j)
    then have "j < length xs" using Cons.prems by simp
    from Cons.IH[OF this] show ?thesis using Suc by simp
  qed
qed

lemma reader_atD:
  assumes "reader_at sys i = Some c"
  shows "i < length (readers sys)" and "readers sys ! i = Some c" and "Some c \<in> set (readers sys)"
proof -
  show 1: "i < length (readers sys)" using assms by (simp add: reader_at_def split: if_splits)
  show 2: "readers sys ! i = Some c" using assms by (simp add: reader_at_def split: if_splits)
  show "Some c \<in> set (readers sys)" using nth_mem[OF 1] 2 by simp
qed

lemma cycled_le_present: "cycled k b c \<le> present c"
  by (simp add: cycled_def present_def split: option.splits prod.splits)

lemma set_update_all:
  assumes "\<forall>c \<in> set xs. P c" and "P y"
  shows "\<forall>c \<in> set (xs[i := y]). P c"
proof
  fix c assume "c \<in> set (xs[i := y])"
  then have "c \<in> insert y (set xs)" using set_update_subset_insert[of xs i y] by blast
  then show "P c" using assms by auto
qed

lemma nreaders_limit_wide: "(uint (x :: 15 word) = nreaders_limit 0) = (unat x = 32767)"
proof -
  have "nreaders_limit 0 = 32767" by (simp add: nreaders_limit_def)
  then show ?thesis unfolding uint_nat by linarith
qed

lemma unat_incr_15: "unat (x :: 15 word) \<noteq> 32767 \<Longrightarrow> unat (x + 1) = unat x + 1"
proof -
  assume a: "unat x \<noteq> 32767"
  have "unat x < 2 ^ 15" using unsigned_less[of x, where 'a = nat] by simp
  then have "unat x + unat (1 :: 15 word) < 2 ^ LENGTH(15)" using a by simp
  then show ?thesis by (simp only: unat_add_lem) simp
qed

lemma unat_incr_15_bounded:
  "unat (x :: 15 word) < n \<Longrightarrow> n \<le> unat (y :: 15 word) \<Longrightarrow> unat (x + 1) = unat x + 1"
proof -
  assume a: "unat x < n" "n \<le> unat y"
  have "unat y < 2 ^ 15" using unsigned_less[of y, where 'a = nat] by simp
  then have "unat x \<noteq> 32767" using a by simp
  then show ?thesis by (rule unat_incr_15)
qed

lemma unat_decr_15: "0 < unat (x :: 15 word) \<Longrightarrow> unat (x - 1) = unat x - 1"
  by (simp add: unat_minus_one unat_gt_0)

lemma reader_ok_cong:
  assumes "tail b' = tail b" and "hstate b' = hstate b"
  shows "reader_ok k b' c = reader_ok k b c"
  unfolding reader_ok_def assms by (rule refl)

lemma cycled_cong:
  assumes "tail b' = tail b"
  shows "cycled k b' c = cycled k b c"
  unfolding cycled_def assms by (rule refl)

lemma writer_ok_cong:
  assumes "tail b' = tail b" and "hstate b' = hstate b"
  shows "writer_ok k b' w = writer_ok k b w"
  unfolding writer_ok_def assms by (rule refl)

lemma cycled_cong_map:
  assumes "tail b' = tail b"
  shows "map (cycled k b') xs = map (cycled k b) xs"
  using cycled_cong[OF assms] by simp

lemma brdct_invI:
  assumes "unat (tail (shared sys)) < 2 ^ 32"
    and "hstate (shared sys) = 1 \<longrightarrow> 2 ^ (k - 1) \<le> unat (tail (shared sys))"
    and "\<forall>c \<in> set (readers sys). reader_ok k (shared sys) c"
    and "unat (nreaders (shared sys)) = sum_list (map present (readers sys))"
    and "unat (ncycled (shared sys)) =
        (if hstate (shared sys) = 1 then sum_list (map (cycled k (shared sys)) (readers sys)) else 0)"
    and "writer_ok k (shared sys) (wslice sys)"
  shows "brdct_inv k sys"
  unfolding brdct_inv_def using assms by blast

lemma brdct_invD:
  assumes "brdct_inv k sys"
  shows "unat (tail (shared sys)) < 2 ^ 32"
    and "hstate (shared sys) = 1 \<longrightarrow> 2 ^ (k - 1) \<le> unat (tail (shared sys))"
    and "\<forall>c \<in> set (readers sys). reader_ok k (shared sys) c"
    and "unat (nreaders (shared sys)) = sum_list (map present (readers sys))"
    and "unat (ncycled (shared sys)) =
        (if hstate (shared sys) = 1 then sum_list (map (cycled k (shared sys)) (readers sys)) else 0)"
    and "writer_ok k (shared sys) (wslice sys)"
  using assms unfolding brdct_inv_def by blast+

lemma half_block_ge_1:
  fixes T H :: nat
  assumes "0 < H" "H \<le> T"
  shows "1 \<le> T div H"
  using assms by (simp add: div_greater_zero_iff Suc_le_eq)

lemma inv_attach:
  assumes k1: "1 \<le> k" and k31: "k \<le> 31" and inv: "brdct_inv k sys"
    and st: "step k Attach sys = Some sys'"
  shows "brdct_inv k sys' \<and> unat (tail (shared sys')) = unat (tail (shared sys))"
proof (cases "unat (nreaders (shared sys)) = 32767")
  case True
  then have "sys' = sys" using st by (simp add: brdct_attach_reader_def nreaders_limit_wide)
  then show ?thesis using inv by simp
next
  case False
  define b where "b = shared sys"
  define H :: nat where "H = 2 ^ (k - 1)"
  define r :: Reader where
    "r = ucast ((ucast (tail b) AND - (2 ^ (k - 1))) - 2 ^ (k - 1) * ucast (hstate b) :: 64 word)"
  define b' where "b' = b\<lparr>nreaders := nreaders b + 1\<rparr>"
  have s': "sys' = sys\<lparr>shared := b', readers := readers sys @ [Some (r, None)]\<rparr>"
    using st False by (simp add: brdct_attach_reader_def nreaders_limit_wide Let_def b_def b'_def r_def)
  have Hp: "0 < H" by (simp add: H_def)
  note d = brdct_invD[OF inv, folded b_def H_def]
  have k63: "k \<le> 63" using k31 by simp
  have hw: "unat ((ucast (tail b) AND - (2 ^ (k - 1))) - 2 ^ (k - 1) * ucast (hstate b) :: 64 word)
      = (unat (tail b) div H - unat (hstate b)) * H"
    unfolding H_def using head_word_nat[OF k1 k63, of "hstate b" "tail b"] d(2)[unfolded H_def] by blast
  have le: "(unat (tail b) div H - unat (hstate b)) * H \<le> unat (tail b)"
  proof -
    have "(unat (tail b) div H - unat (hstate b)) * H \<le> unat (tail b) div H * H"
      by (rule mult_le_mono1) simp
    also have "\<dots> \<le> unat (tail b)" by simp
    finally show ?thesis .
  qed
  have "unat r = (unat (tail b) div H - unat (hstate b)) * H mod 2 ^ 32"
    unfolding r_def unat_ucast_mod hw by simp
  then have R: "unat r = (unat (tail b) div H - unat (hstate b)) * H"
    using le d(1) by simp
  have Rd: "unat r div H = unat (tail b) div H - unat (hstate b)"
    unfolding R using Hp by simp
  have tb: "tail b' = tail b" and hb: "hstate b' = hstate b" and cb: "ncycled b' = ncycled b"
    by (simp_all add: b'_def)
  have q1: "1 \<le> unat (tail b) div H" if "hstate b = 1"
    using half_block_ge_1[OF Hp] d(2) that by blast
  have hs: "unat (hstate b) \<le> 1" by (simp add: unat_hstate)
  have q2: "unat (hstate b) \<le> unat (tail b) div H"
    using q1 by (cases "hstate b = 1") (simp_all add: unat_hstate)
  have new_ok: "reader_ok k b (Some (r, None))"
    unfolding reader_ok_def H_def[symmetric] Rd using q2 le R by simp
  have new_cyc: "cycled k b (Some (r, None)) = 0" if "hstate b = 1"
  proof -
    have "unat r div H = unat (tail b) div H - 1" using Rd that by (simp add: unat_hstate)
    then have "unat r div H \<noteq> unat (tail b) div H" using q1[OF that] by linarith
    then show ?thesis unfolding cycled_def H_def[symmetric] by simp
  qed
  have "unat (nreaders b') = unat (nreaders b) + 1"
    using False by (simp add: b'_def b_def unat_incr_15)
  then have nr': "unat (nreaders b') = sum_list (map present (readers sys @ [Some (r, None)]))"
    using d(4) by (simp add: present_def)
  have nc': "unat (ncycled b') =
        (if hstate b' = 1 then sum_list (map (cycled k b') (readers sys @ [Some (r, None)])) else 0)"
    unfolding cb hb cycled_cong_map[OF tb] using d(5) new_cyc by simp
  have ro': "\<forall>c \<in> set (readers sys @ [Some (r, None)]). reader_ok k b' c"
    unfolding reader_ok_cong[OF tb hb] using d(3) new_ok by simp
  have "brdct_inv k sys'"
  proof (rule brdct_invI)
    show "unat (tail (shared sys')) < 2 ^ 32" using d(1) by (simp add: s' tb)
    show "hstate (shared sys') = 1 \<longrightarrow> 2 ^ (k - 1) \<le> unat (tail (shared sys'))"
      using d(2) by (simp add: s' tb hb H_def)
    show "\<forall>c \<in> set (readers sys'). reader_ok k (shared sys') c" using ro' by (simp add: s')
    show "unat (nreaders (shared sys')) = sum_list (map present (readers sys'))"
      using nr' by (simp add: s')
    show "unat (ncycled (shared sys')) =
        (if hstate (shared sys') = 1 then sum_list (map (cycled k (shared sys')) (readers sys')) else 0)"
      using nc' by (simp add: s')
    show "writer_ok k (shared sys') (wslice sys')"
      using d(6) by (simp add: s' writer_ok_cong[OF tb hb])
  qed
  moreover have "unat (tail (shared sys')) = unat (tail (shared sys))"
    by (simp add: s' tb b_def)
  ultimately show ?thesis by simp
qed

lemma unat_step_32:
  fixes r :: Reader and n :: size_t
  assumes "unat r + unat n < 2 ^ 32"
  shows "unat (ucast ((ucast r :: size_t) + n) :: Reader) = unat r + unat n"
proof -
  have r: "unat (ucast r :: 64 word) = unat r" by (simp add: unat_ucast_up)
  have "unat r + unat n < 2 ^ 64" using assms by simp
  then have "unat ((ucast r :: 64 word) + n) = unat r + unat n"
    using r by (simp add: unat_add_lem[THEN iffD1])
  then show ?thesis using assms by (simp add: unat_ucast_mod)
qed

lemma unat_step_33:
  fixes t :: "33 word" and n :: size_t
  assumes "unat t + unat n < 2 ^ 33"
  shows "unat (ucast ((ucast t :: size_t) + n) :: 33 word) = unat t + unat n"
proof -
  have r: "unat (ucast t :: 64 word) = unat t" by (simp add: unat_ucast_up)
  have "unat t + unat n < 2 ^ 64" using assms by simp
  then have "unat ((ucast t :: 64 word) + n) = unat t + unat n"
    using r by (simp add: unat_add_lem[THEN iffD1])
  then show ?thesis using assms by (simp add: unat_ucast_mod)
qed

lemma drop_bit_eq_div_iff:
  fixes x y :: "'a::len word"
  shows "(drop_bit n x = drop_bit n y) = (unat x div 2 ^ n = unat y div 2 ^ n)"
  by (simp add: word_unat_eq_iff unat_drop_bit_div)

lemma reader_commit_nat:
  assumes l: "len s = cnt0 s + cnt1 s" and b: "unat r + unat n < 2 ^ 32"
  shows "unat (snd (brdct_reader_commit brc k r (consume n s))) = unat r + unat n"
    and "fst (brdct_reader_commit brc k r (consume n s)) =
         (if (unat r + unat n) div 2 ^ (k - 1) = unat r div 2 ^ (k - 1) then brc
          else brc\<lparr>ncycled := ncycled brc + 1\<rparr>)"
proof -
  note c = consume_count[OF l, of n]
  note u = unat_step_32[OF b]
  show "unat (snd (brdct_reader_commit brc k r (consume n s))) = unat r + unat n"
    unfolding brdct_reader_commit_def Let_def c using u by simp
  show "fst (brdct_reader_commit brc k r (consume n s)) =
         (if (unat r + unat n) div 2 ^ (k - 1) = unat r div 2 ^ (k - 1) then brc
          else brc\<lparr>ncycled := ncycled brc + 1\<rparr>)"
    unfolding brdct_reader_commit_def Let_def c drop_bit_eq_div_iff u by simp
qed

lemma writer_commit_nat:
  assumes l: "len s = cnt0 s + cnt1 s" and b: "unat (tail brc) + unat n < 2 ^ 33"
  shows "unat (tail (brdct_writer_commit brc k (consume n s))) = unat (tail brc) + unat n"
    and "hstate (brdct_writer_commit brc k (consume n s)) =
         (if (unat (tail brc) + unat n) div 2 ^ (k - 1) \<noteq> unat (tail brc) div 2 ^ (k - 1) then 1
          else hstate brc)"
    and "nreaders (brdct_writer_commit brc k (consume n s)) = nreaders brc"
    and "ncycled (brdct_writer_commit brc k (consume n s)) = ncycled brc"
proof -
  note c = consume_count[OF l, of n]
  note u = unat_step_33[OF b]
  show "unat (tail (brdct_writer_commit brc k (consume n s))) = unat (tail brc) + unat n"
    unfolding brdct_writer_commit_def Let_def c using u by simp
  show "hstate (brdct_writer_commit brc k (consume n s)) =
         (if (unat (tail brc) + unat n) div 2 ^ (k - 1) \<noteq> unat (tail brc) div 2 ^ (k - 1) then 1
          else hstate brc)"
    unfolding brdct_writer_commit_def Let_def c using u by (simp add: drop_bit_eq_div_iff)
  show "nreaders (brdct_writer_commit brc k (consume n s)) = nreaders brc"
    unfolding brdct_writer_commit_def Let_def by simp
  show "ncycled (brdct_writer_commit brc k (consume n s)) = ncycled brc"
    unfolding brdct_writer_commit_def Let_def by simp
qed

lemma detach_nat:
  "brdct_detach_reader brc k r =
     (if hstate brc = 1 \<and> unat (tail brc) div 2 ^ (k - 1) = unat r div 2 ^ (k - 1)
      then brc\<lparr>nreaders := nreaders brc - 1, ncycled := ncycled brc - 1\<rparr>
      else brc\<lparr>nreaders := nreaders brc - 1\<rparr>)"
  using hstate_cases[of "hstate brc"]
  by (auto simp add: brdct_detach_reader_def Let_def detach_same_half)

lemma reader_slice_nat:
  assumes "unat r \<le> unat (tail brc)"
  shows "len (brdct_reader_slice brc k r) =
           cnt0 (brdct_reader_slice brc k r) + cnt1 (brdct_reader_slice brc k r)"
    and "unat (len (brdct_reader_slice brc k r)) = unat (tail brc) - unat r"
proof -
  show "len (brdct_reader_slice brc k r) =
           cnt0 (brdct_reader_slice brc k r) + cnt1 (brdct_reader_slice brc k r)"
    by (simp add: reader_slice_eq Let_def)
  have t: "unat (ucast (tail brc) :: 64 word) = unat (tail brc)" by (simp add: unat_ucast_up)
  have r: "unat (ucast r :: 64 word) = unat r" by (simp add: unat_ucast_up)
  have "(ucast r :: 64 word) \<le> ucast (tail brc)" unfolding word_le_nat_alt t r using assms .
  then show "unat (len (brdct_reader_slice brc k r)) = unat (tail brc) - unat r"
    by (simp add: reader_slice_len unat_sub t r)
qed

lemma inv_detach:
  assumes inv: "brdct_inv k sys" and st: "step k (Detach i) sys = Some sys'"
  shows "brdct_inv k sys' \<and> unat (tail (shared sys')) = unat (tail (shared sys))"
proof -
  define b where "b = shared sys"
  define H :: nat where "H = 2 ^ (k - 1)"
  obtain r p where at: "reader_at sys i = Some (r, p)"
    using st by (auto split: option.splits)
  define b' where "b' = brdct_detach_reader b k r"
  have s': "sys' = sys\<lparr>shared := b', readers := (readers sys)[i := None]\<rparr>"
    using st at by (simp add: b'_def b_def)
  note a = reader_atD[OF at]
  note d = brdct_invD[OF inv, folded b_def H_def]
  note dn = detach_nat[of b k r, folded b'_def H_def]
  have tb: "tail b' = tail b" and hb: "hstate b' = hstate b"
    unfolding dn by simp_all
  have p1: "sum_list (map present ((readers sys)[i := None])) + 1 = sum_list (map present (readers sys))"
    using sum_list_map_update[OF a(1), of present None] a(2) by (simp add: present_def)
  then have pos: "0 < unat (nreaders b)" using d(4) by simp
  have "nreaders b' = nreaders b - 1" unfolding dn by simp
  then have "unat (nreaders b') = unat (nreaders b) - 1" using unat_decr_15[OF pos] by simp
  then have nr': "unat (nreaders b') = sum_list (map present ((readers sys)[i := None]))"
    using p1 d(4) by simp
  have c1: "sum_list (map (cycled k b) ((readers sys)[i := None])) + cycled k b (Some (r, p))
      = sum_list (map (cycled k b) (readers sys))"
    using sum_list_map_update[OF a(1), of "cycled k b" None] a(2) by (simp add: cycled_def)
  have nc': "unat (ncycled b') =
        (if hstate b' = 1 then sum_list (map (cycled k b') ((readers sys)[i := None])) else 0)"
  proof (cases "hstate b = 1 \<and> unat (tail b) div H = unat r div H")
    case True
    then have cy: "cycled k b (Some (r, p)) = 1" by (simp add: cycled_def H_def)
    then have "0 < unat (ncycled b)" using d(5) c1 True by simp
    moreover have "ncycled b' = ncycled b - 1" unfolding dn using True by simp
    ultimately have "unat (ncycled b') = unat (ncycled b) - 1" using unat_decr_15 by simp
    then show ?thesis unfolding hb cycled_cong_map[OF tb] using d(5) c1 cy True by simp
  next
    case False
    then have n: "ncycled b' = ncycled b" unfolding dn by simp
    show ?thesis
    proof (cases "hstate b = 1")
      case True
      then have "cycled k b (Some (r, p)) = 0" using False by (auto simp: cycled_def H_def)
      then show ?thesis unfolding hb cycled_cong_map[OF tb] n using d(5) c1 by simp
    next
      case F: False
      then show ?thesis unfolding hb n using d(5) by simp
    qed
  qed
  have "reader_ok k b None" by (simp add: reader_ok_def)
  then have ro': "\<forall>c \<in> set ((readers sys)[i := None]). reader_ok k b' c"
    unfolding reader_ok_cong[OF tb hb] using set_update_all[OF d(3)] by blast
  have "brdct_inv k sys'"
  proof (rule brdct_invI)
    show "unat (tail (shared sys')) < 2 ^ 32" using d(1) by (simp add: s' tb)
    show "hstate (shared sys') = 1 \<longrightarrow> 2 ^ (k - 1) \<le> unat (tail (shared sys'))"
      using d(2) by (simp add: s' tb hb H_def)
    show "\<forall>c \<in> set (readers sys'). reader_ok k (shared sys') c" using ro' by (simp add: s')
    show "unat (nreaders (shared sys')) = sum_list (map present (readers sys'))"
      using nr' by (simp add: s')
    show "unat (ncycled (shared sys')) =
        (if hstate (shared sys') = 1 then sum_list (map (cycled k (shared sys')) (readers sys')) else 0)"
      using nc' by (simp add: s')
    show "writer_ok k (shared sys') (wslice sys')"
      using d(6) by (simp add: s' writer_ok_cong[OF tb hb])
  qed
  moreover have "unat (tail (shared sys')) = unat (tail (shared sys))"
    by (simp add: s' tb b_def)
  ultimately show ?thesis by simp
qed

lemma inv_reader_slice:
  assumes inv: "brdct_inv k sys" and st: "step k (ReaderSlice i) sys = Some sys'"
  shows "brdct_inv k sys' \<and> unat (tail (shared sys')) = unat (tail (shared sys))"
proof -
  define b where "b = shared sys"
  obtain r p where at: "reader_at sys i = Some (r, p)"
    using st by (auto split: option.splits)
  define s where "s = brdct_reader_slice b k r"
  have s': "sys' = sys\<lparr>readers := (readers sys)[i := Some (r, Some s)]\<rparr>"
    using st at by (simp add: s_def b_def)
  note a = reader_atD[OF at]
  note d = brdct_invD[OF inv, folded b_def]
  have old: "reader_ok k b (Some (r, p))" using d(3) a(3) by blast
  then have rt: "unat r \<le> unat (tail b)" by (simp add: reader_ok_def)
  note sl = reader_slice_nat[OF rt, of k, folded s_def]
  have new: "reader_ok k b (Some (r, Some s))"
    using old sl rt by (simp add: reader_ok_def)
  have p1: "sum_list (map present ((readers sys)[i := Some (r, Some s)])) = sum_list (map present (readers sys))"
    using sum_list_map_update[OF a(1), of present "Some (r, Some s)"] a(2) by (simp add: present_def)
  have c1: "sum_list (map (cycled k b) ((readers sys)[i := Some (r, Some s)]))
      = sum_list (map (cycled k b) (readers sys))"
    using sum_list_map_update[OF a(1), of "cycled k b" "Some (r, Some s)"] a(2)
    by (simp add: cycled_def)
  have ro': "\<forall>c \<in> set ((readers sys)[i := Some (r, Some s)]). reader_ok k b c"
    using set_update_all[OF d(3) new] by blast
  have "brdct_inv k sys'"
  proof (rule brdct_invI)
    show "unat (tail (shared sys')) < 2 ^ 32" using d(1) by (simp add: s' b_def)
    show "hstate (shared sys') = 1 \<longrightarrow> 2 ^ (k - 1) \<le> unat (tail (shared sys'))"
      using d(2) by (simp add: s' b_def)
    show "\<forall>c \<in> set (readers sys'). reader_ok k (shared sys') c" using ro' by (simp add: s' b_def)
    show "unat (nreaders (shared sys')) = sum_list (map present (readers sys'))"
      using d(4) p1 by (simp add: s' b_def)
    show "unat (ncycled (shared sys')) =
        (if hstate (shared sys') = 1 then sum_list (map (cycled k (shared sys')) (readers sys')) else 0)"
      using d(5) c1 by (simp add: s' b_def)
    show "writer_ok k (shared sys') (wslice sys')"
      using d(6) by (simp add: s' b_def)
  qed
  moreover have "unat (tail (shared sys')) = unat (tail (shared sys))"
    by (simp add: s')
  ultimately show ?thesis by simp
qed

lemma inv_reader_commit:
  assumes inv: "brdct_inv k sys" and st: "step k (ReaderCommit i n) sys = Some sys'"
  shows "brdct_inv k sys' \<and> unat (tail (shared sys')) = unat (tail (shared sys))"
proof -
  define b where "b = shared sys"
  define H :: nat where "H = 2 ^ (k - 1)"
  obtain r s where at: "reader_at sys i = Some (r, Some s)" and nl: "n \<le> len s"
    using st by (auto split: option.splits prod.splits if_splits)
  define b' where "b' = fst (brdct_reader_commit b k r (consume n s))"
  define r' where "r' = snd (brdct_reader_commit b k r (consume n s))"
  have s': "sys' = sys\<lparr>shared := b', readers := (readers sys)[i := Some (r', None)]\<rparr>"
    using st at nl by (simp add: b'_def r'_def b_def split: prod.splits)
  note a = reader_atD[OF at]
  note d = brdct_invD[OF inv, folded b_def H_def]
  have old: "reader_ok k b (Some (r, Some s))" using d(3) a(3) by blast
  then have A: "unat (tail b) div H \<le> unat r div H + unat (hstate b)"
    and B: "unat r \<le> unat (tail b)"
    and L: "len s = cnt0 s + cnt1 s"
    and M: "unat r + unat (len s) \<le> unat (tail b)"
    unfolding reader_ok_def H_def option.case prod.case by blast+
  have "unat n \<le> unat (len s)" using nl by (simp add: word_le_nat_alt)
  then have RT: "unat r + unat n \<le> unat (tail b)" using M by linarith
  then have bd: "unat r + unat n < 2 ^ 32" using d(1) by linarith
  note rc = reader_commit_nat[OF L bd, of b k, folded b'_def r'_def H_def]
  have R': "unat r' = unat r + unat n" by (rule rc(1))
  have tb: "tail b' = tail b" and hb: "hstate b' = hstate b" and nb: "nreaders b' = nreaders b"
    unfolding rc(2) by simp_all
  have m1: "unat r div H \<le> unat r' div H" unfolding R' by (simp add: div_le_mono)
  have m2: "unat r' div H \<le> unat (tail b) div H" unfolding R' using RT by (simp add: div_le_mono)
  have new: "reader_ok k b (Some (r', None))"
    unfolding reader_ok_def H_def[symmetric] using A m1 RT R' by simp
  have p1: "sum_list (map present ((readers sys)[i := Some (r', None)])) = sum_list (map present (readers sys))"
    using sum_list_map_update[OF a(1), of present "Some (r', None)"] a(2) by (simp add: present_def)
  have c1: "sum_list (map (cycled k b) ((readers sys)[i := Some (r', None)])) + cycled k b (Some (r, Some s))
      = sum_list (map (cycled k b) (readers sys)) + cycled k b (Some (r', None))"
    using sum_list_map_update[OF a(1), of "cycled k b" "Some (r', None)"] a(2) by simp
  have cyo: "cycled k b (Some (r, Some s)) = (if unat r div H = unat (tail b) div H then 1 else 0)"
    by (simp add: cycled_def H_def)
  have cyn: "cycled k b (Some (r', None)) = (if unat r' div H = unat (tail b) div H then 1 else 0)"
    by (simp add: cycled_def H_def)
  have le: "sum_list (map (cycled k b) ((readers sys)[i := Some (r', None)]))
      \<le> sum_list (map present ((readers sys)[i := Some (r', None)]))"
    by (rule sum_list_map_mono) (rule cycled_le_present)
  have hs: "unat (hstate b) \<le> 1" by (simp add: unat_hstate)
  have nc': "unat (ncycled b') =
        (if hstate b' = 1 then sum_list (map (cycled k b') ((readers sys)[i := Some (r', None)])) else 0)"
  proof (cases "hstate b = 1")
    case True
    note h1 = True
    show ?thesis
    proof (cases "unat r' div H = unat r div H")
      case True
      then have n: "ncycled b' = ncycled b" unfolding rc(2) R' by simp
      have "cycled k b (Some (r', None)) = cycled k b (Some (r, Some s))"
        unfolding cyo cyn using True by simp
      then show ?thesis unfolding hb cycled_cong_map[OF tb] n using d(5) c1 h1 by simp
    next
      case False
      then have n: "ncycled b' = ncycled b + 1" unfolding rc(2) R' by simp
      have "unat r div H < unat r' div H" using False m1 by linarith
      then have e: "unat r' div H = unat (tail b) div H" and ne: "unat r div H \<noteq> unat (tail b) div H"
        using m2 A hs by linarith+
      have su: "sum_list (map (cycled k b) ((readers sys)[i := Some (r', None)]))
          = sum_list (map (cycled k b) (readers sys)) + 1"
        using c1 unfolding cyo cyn using e ne by simp
      then have "unat (ncycled b) < unat (nreaders b)"
        using le p1 d(4) d(5) h1 by simp
      then have "unat (ncycled b + 1) = unat (ncycled b) + 1"
        by (rule unat_incr_15_bounded[where y = "nreaders b"]) simp
      then show ?thesis unfolding hb cycled_cong_map[OF tb] n using d(5) su h1 by simp
    qed
  next
    case False
    then have "unat (hstate b) = 0" by (simp add: unat_hstate)
    then have "unat r' div H = unat r div H" using A m1 m2 by linarith
    then have n: "ncycled b' = ncycled b" unfolding rc(2) R' by simp
    show ?thesis unfolding hb n using d(5) False by simp
  qed
  have ro': "\<forall>c \<in> set ((readers sys)[i := Some (r', None)]). reader_ok k b' c"
    unfolding reader_ok_cong[OF tb hb] using set_update_all[OF d(3) new] by blast
  have "brdct_inv k sys'"
  proof (rule brdct_invI)
    show "unat (tail (shared sys')) < 2 ^ 32" using d(1) by (simp add: s' tb)
    show "hstate (shared sys') = 1 \<longrightarrow> 2 ^ (k - 1) \<le> unat (tail (shared sys'))"
      using d(2) by (simp add: s' tb hb H_def)
    show "\<forall>c \<in> set (readers sys'). reader_ok k (shared sys') c" using ro' by (simp add: s')
    show "unat (nreaders (shared sys')) = sum_list (map present (readers sys'))"
      using d(4) p1 by (simp add: s' nb)
    show "unat (ncycled (shared sys')) =
        (if hstate (shared sys') = 1 then sum_list (map (cycled k (shared sys')) (readers sys')) else 0)"
      using nc' by (simp add: s')
    show "writer_ok k (shared sys') (wslice sys')"
      using d(6) by (simp add: s' writer_ok_cong[OF tb hb])
  qed
  moreover have "unat (tail (shared sys')) = unat (tail (shared sys))"
    by (simp add: s' tb b_def)
  ultimately show ?thesis by simp
qed

lemma div_add_low:
  fixes T N H :: nat
  shows "(T + N) div H = T div H + (T mod H + N) div H"
proof (cases "H = 0")
  case True
  then show ?thesis by simp
next
  case False
  have "T + N = T div H * H + (T mod H + N)" by simp
  then have "(T + N) div H = (T div H * H + (T mod H + N)) div H" by simp
  also have "\<dots> = T div H + (T mod H + N) div H" by (rule div_mult_self3[OF False])
  finally show ?thesis .
qed

lemma reader_ok_grow:
  assumes ok: "reader_ok k b c"
    and t: "unat (tail b) \<le> unat (tail b')"
    and h: "unat (tail b') div 2 ^ (k - 1) + unat (hstate b) \<le>
            unat (tail b) div 2 ^ (k - 1) + unat (hstate b')"
  shows "reader_ok k b' c"
proof (cases c)
  case None
  then show ?thesis by (simp add: reader_ok_def)
next
  case (Some x)
  obtain r p where x: "x = (r, p)" by (cases x)
  have A: "unat (tail b) div 2 ^ (k - 1) \<le> unat r div 2 ^ (k - 1) + unat (hstate b)"
    and B: "unat r \<le> unat (tail b)"
    using ok unfolding reader_ok_def Some x option.case prod.case by blast+
  have A': "unat (tail b') div 2 ^ (k - 1) \<le> unat r div 2 ^ (k - 1) + unat (hstate b')"
    using A h by linarith
  have B': "unat r \<le> unat (tail b')" using B t by linarith
  show ?thesis
  proof (cases p)
    case None
    then show ?thesis unfolding reader_ok_def Some x using A' B' by simp
  next
    case (Some s)
    have "len s = cnt0 s + cnt1 s \<and> unat r + unat (len s) \<le> unat (tail b)"
      using ok unfolding reader_ok_def \<open>c = Some x\<close> x Some option.case prod.case by blast
    then have "len s = cnt0 s + cnt1 s \<and> unat r + unat (len s) \<le> unat (tail b')"
      using t by linarith
    then show ?thesis unfolding reader_ok_def \<open>c = Some x\<close> x Some option.case prod.case
      using A' B' by blast
  qed
qed

lemma writer_slice_ok:
  assumes k1: "1 \<le> k" and k63: "k \<le> 63"
  shows "writer_ok k (fst (brdct_writer_slice brc k)) (Some (snd (brdct_writer_slice brc k)))"
proof -
  define new where "new = fst (brdct_writer_slice brc k)"
  note w = writer_slice_bounds[OF k1 k63, of brc, folded new_def]
  have hs: "unat (hstate new) \<le> 1" by (simp add: unat_hstate)
  have "unat (tail new) mod 2 ^ (k - 1) < 2 ^ (k - 1)" by simp
  moreover have "2 ^ (k - 1) * unat (hstate new) \<le> (2::nat) ^ (k - 1)" using hs by simp
  ultimately have "unat (tail new) mod 2 ^ (k - 1) + 2 ^ (k - 1) * unat (hstate new) \<le> 2 ^ k - 1"
    using pow2_double[OF k1] by linarith
  then have "unat (tail new) mod 2 ^ (k - 1) + 2 ^ (k - 1) * unat (hstate new) +
      unat (len (snd (brdct_writer_slice brc k))) \<le> 2 ^ k - 1"
    unfolding w(1) by linarith
  then show ?thesis unfolding writer_ok_def option.case new_def[symmetric] using w(2) by blast
qed

lemma writer_slice_state:
  "fst (brdct_writer_slice brc k) =
     (if nreaders brc = 0 \<or> ncycled brc < nreaders brc then brc
      else brc\<lparr>ncycled := 0, hstate := 0\<rparr>)"
  by (simp add: writer_slice_eq Let_def)

lemma reader_ok_reset:
  assumes ok: "reader_ok k b c" and cy: "cycled k b c = present c"
    and tb: "tail b' = tail b"
  shows "reader_ok k b' c"
proof (cases c)
  case None
  then show ?thesis by (simp add: reader_ok_def)
next
  case (Some x)
  obtain r p where x: "x = (r, p)" by (cases x)
  have q: "unat r div 2 ^ (k - 1) = unat (tail b) div 2 ^ (k - 1)"
  proof (rule ccontr)
    assume "unat r div 2 ^ (k - 1) \<noteq> unat (tail b) div 2 ^ (k - 1)"
    then have "cycled k b c = 0" by (simp add: cycled_def Some x)
    moreover have "present c = 1" by (simp add: present_def Some)
    ultimately show False using cy by simp
  qed
  have B: "unat r \<le> unat (tail b)"
    using ok unfolding reader_ok_def Some x option.case prod.case by blast
  have A': "unat (tail b') div 2 ^ (k - 1) \<le> unat r div 2 ^ (k - 1) + unat (hstate b')"
    unfolding tb q by simp
  show ?thesis
  proof (cases p)
    case None
    then show ?thesis unfolding reader_ok_def Some x tb using A'[unfolded tb] B by simp
  next
    case (Some s)
    have "len s = cnt0 s + cnt1 s \<and> unat r + unat (len s) \<le> unat (tail b)"
      using ok unfolding reader_ok_def \<open>c = Some x\<close> x Some option.case prod.case by blast
    then show ?thesis unfolding reader_ok_def \<open>c = Some x\<close> x Some option.case prod.case tb
      using A'[unfolded tb] B by blast
  qed
qed

lemma inv_writer_slice:
  assumes k1: "1 \<le> k" and k31: "k \<le> 31" and inv: "brdct_inv k sys"
    and st: "step k WriterSlice sys = Some sys'"
  shows "brdct_inv k sys' \<and> unat (tail (shared sys')) = unat (tail (shared sys))"
proof -
  define b where "b = shared sys"
  define H :: nat where "H = 2 ^ (k - 1)"
  define b' where "b' = fst (brdct_writer_slice b k)"
  define s where "s = snd (brdct_writer_slice b k)"
  have s': "sys' = sys\<lparr>shared := b', wslice := Some s\<rparr>"
    using st by (simp add: b'_def s_def b_def split: prod.splits)
  note d = brdct_invD[OF inv, folded b_def H_def]
  have k63: "k \<le> 63" using k31 by simp
  have wo: "writer_ok k b' (Some s)"
    unfolding b'_def s_def by (rule writer_slice_ok[OF k1 k63])
  note ws = writer_slice_state[of b k, folded b'_def]
  have tb: "tail b' = tail b" and nb: "nreaders b' = nreaders b"
    unfolding ws by simp_all
  have rest: "(hstate b' = 1 \<longrightarrow> H \<le> unat (tail b')) \<and>
      (\<forall>c \<in> set (readers sys). reader_ok k b' c) \<and>
      unat (ncycled b') =
        (if hstate b' = 1 then sum_list (map (cycled k b') (readers sys)) else 0)"
  proof (cases "nreaders b = 0 \<or> ncycled b < nreaders b")
    case True
    then have "b' = b" unfolding ws by simp
    then show ?thesis using d(2,3,5) by simp
  next
    case False
    then have e: "b' = b\<lparr>ncycled := 0, hstate := 0\<rparr>" unfolding ws by simp
    have n0: "unat (nreaders b) \<noteq> 0" using False by (simp add: unat_eq_0)
    have ge: "unat (nreaders b) \<le> unat (ncycled b)"
      using False by (simp add: word_less_nat_alt)
    have h1: "hstate b = 1"
    proof (rule ccontr)
      assume "hstate b \<noteq> 1"
      then have "unat (ncycled b) = 0" using d(5) by simp
      then show False using ge n0 by simp
    qed
    have "sum_list (map (cycled k b) (readers sys)) \<le> sum_list (map present (readers sys))"
      by (rule sum_list_map_mono) (rule cycled_le_present)
    then have "sum_list (map (cycled k b) (readers sys)) = sum_list (map present (readers sys))"
      using ge d(4) d(5) h1 by simp
    then have all: "\<forall>c \<in> set (readers sys). cycled k b c = present c"
      by (rule sum_list_map_eq_pointwise[OF cycled_le_present])
    have ro: "\<forall>c \<in> set (readers sys). reader_ok k b' c"
    proof
      fix c assume c: "c \<in> set (readers sys)"
      have ok: "reader_ok k b c" using d(3) c by blast
      have cy: "cycled k b c = present c" using all c by blast
      show "reader_ok k b' c" by (rule reader_ok_reset[OF ok cy tb])
    qed
    have "hstate b' = 0" "ncycled b' = 0" by (simp_all add: e)
    then show ?thesis using ro by simp
  qed
  have "brdct_inv k sys'"
  proof (rule brdct_invI)
    show "unat (tail (shared sys')) < 2 ^ 32" using d(1) by (simp add: s' tb)
    show "hstate (shared sys') = 1 \<longrightarrow> 2 ^ (k - 1) \<le> unat (tail (shared sys'))"
      using rest by (simp add: s' H_def)
    show "\<forall>c \<in> set (readers sys'). reader_ok k (shared sys') c" using rest by (simp add: s')
    show "unat (nreaders (shared sys')) = sum_list (map present (readers sys'))"
      using d(4) by (simp add: s' nb)
    show "unat (ncycled (shared sys')) =
        (if hstate (shared sys') = 1 then sum_list (map (cycled k (shared sys')) (readers sys')) else 0)"
      using rest by (simp add: s')
    show "writer_ok k (shared sys') (wslice sys')"
      using wo by (simp add: s')
  qed
  moreover have "unat (tail (shared sys')) = unat (tail (shared sys))"
    by (simp add: s' tb b_def)
  ultimately show ?thesis by simp
qed

lemma inv_writer_commit:
  assumes k1: "1 \<le> k" and inv: "brdct_inv k sys"
    and st: "step k (WriterCommit n) sys = Some sys'"
    and bd: "unat (tail (shared sys)) + unat n < 2 ^ 32"
  shows "brdct_inv k sys' \<and> unat (tail (shared sys')) = unat (tail (shared sys)) + unat n"
proof -
  define b where "b = shared sys"
  define H :: nat where "H = 2 ^ (k - 1)"
  obtain s where ws: "wslice sys = Some s" and nl: "n \<le> len s"
    using st by (auto split: option.splits if_splits)
  define b' where "b' = brdct_writer_commit b k (consume n s)"
  have s': "sys' = sys\<lparr>shared := b', wslice := None\<rparr>"
    using st ws nl by (simp add: b'_def b_def)
  note d = brdct_invD[OF inv, folded b_def H_def]
  have Hp: "0 < H" by (simp add: H_def)
  have HH: "H + H = 2 ^ k" unfolding H_def by (rule pow2_double[OF k1])
  have L: "len s = cnt0 s + cnt1 s"
    and W: "unat (tail b) mod H + H * unat (hstate b) + unat (len s) \<le> 2 ^ k - 1"
    using d(6) unfolding writer_ok_def ws option.case H_def by blast+
  have N: "unat n \<le> unat (len s)" using nl by (simp add: word_le_nat_alt)
  have bd33: "unat (tail b) + unat n < 2 ^ 33" using bd by (simp add: b_def)
  note wc = writer_commit_nat[OF L bd33, of k, folded b'_def H_def]
  have T': "unat (tail b') = unat (tail b) + unat n" by (rule wc(1))
  have dv: "unat (tail b') div H = unat (tail b) div H + (unat (tail b) mod H + unat n) div H"
    unfolding T' by (rule div_add_low)
  have low: "unat (tail b) mod H + unat n < H + H"
    using W N HH Hp by linarith
  then have q01: "(unat (tail b) mod H + unat n) div H \<le> 1"
    using Hp by (metis One_nat_def Suc_1 less_mult_imp_div_less less_Suc_eq_le mult_2)
  have hs: "unat (hstate b) \<le> 1" by (simp add: unat_hstate)
  have rest: "(hstate b' = 1 \<longrightarrow> H \<le> unat (tail b')) \<and>
      (\<forall>c \<in> set (readers sys). reader_ok k b' c) \<and>
      unat (ncycled b') =
        (if hstate b' = 1 then sum_list (map (cycled k b') (readers sys)) else 0)"
  proof (cases "unat (tail b') div H = unat (tail b) div H")
    case True
    then have hb: "hstate b' = hstate b" unfolding wc(2) T' by simp
    have "cycled k b' c = cycled k b c" for c
      unfolding cycled_def H_def[symmetric] True by (rule refl)
    then have cyc: "cycled k b' = cycled k b" by (rule ext)
    have ro: "\<forall>c \<in> set (readers sys). reader_ok k b' c"
    proof
      fix c assume c: "c \<in> set (readers sys)"
      have ok: "reader_ok k b c" using d(3) c by blast
      show "reader_ok k b' c"
      proof (rule reader_ok_grow[OF ok])
        show "unat (tail b) \<le> unat (tail b')" unfolding T' by simp
        show "unat (tail b') div 2 ^ (k - 1) + unat (hstate b) \<le>
            unat (tail b) div 2 ^ (k - 1) + unat (hstate b')"
          unfolding hb using True[unfolded H_def] by linarith
      qed
    qed
    have "hstate b' = 1 \<longrightarrow> H \<le> unat (tail b')" using d(2) hb T' by auto
    moreover have "unat (ncycled b') =
        (if hstate b' = 1 then sum_list (map (cycled k b') (readers sys)) else 0)"
      unfolding wc(4) hb using d(5) by (simp add: cyc)
    ultimately show ?thesis using ro by blast
  next
    case False
    then have hb: "hstate b' = 1" unfolding wc(2) T' by simp
    have ne: "(unat (tail b) mod H + unat n) div H \<noteq> 0" using False dv by simp
    then have up: "unat (tail b') div H = unat (tail b) div H + 1" using dv q01 by linarith
    have h0: "hstate b \<noteq> 1"
    proof
      assume "hstate b = 1"
      then have "unat (tail b) mod H + H + unat (len s) \<le> 2 ^ k - 1" using W by simp
      then have "unat (tail b) mod H + unat n < H" using N HH Hp by linarith
      then show False using ne by simp
    qed
    then have hz: "unat (hstate b) = 0" by (simp add: unat_hstate)
    have "1 \<le> unat (tail b') div H" using up by simp
    then have ge: "H \<le> unat (tail b')"
      by (metis Hp div_greater_zero_iff less_eq_Suc_le One_nat_def)
    have ro: "\<forall>c \<in> set (readers sys). reader_ok k b' c"
    proof
      fix c assume c: "c \<in> set (readers sys)"
      have ok: "reader_ok k b c" using d(3) c by blast
      show "reader_ok k b' c"
      proof (rule reader_ok_grow[OF ok])
        show "unat (tail b) \<le> unat (tail b')" unfolding T' by simp
        have "unat (hstate b') = 1" using hb by simp
        then show "unat (tail b') div 2 ^ (k - 1) + unat (hstate b) \<le>
            unat (tail b) div 2 ^ (k - 1) + unat (hstate b')"
          using hz up[unfolded H_def] by linarith
      qed
    qed
    have cz: "\<forall>c \<in> set (readers sys). cycled k b' c = 0"
    proof
      fix c assume c: "c \<in> set (readers sys)"
      show "cycled k b' c = 0"
      proof (cases c)
        case None
        then show ?thesis by (simp add: cycled_def)
      next
        case (Some x)
        obtain r p where x: "x = (r, p)" by (cases x)
        have "reader_ok k b c" using d(3) c by blast
        then have "unat r \<le> unat (tail b)"
          unfolding reader_ok_def Some x option.case prod.case by blast
        then have "unat r div H \<le> unat (tail b) div H" by (rule div_le_mono)
        then have "unat r div H \<noteq> unat (tail b') div H" using up by linarith
        then show ?thesis unfolding cycled_def Some x H_def by simp
      qed
    qed
    have "unat (ncycled b') = 0" unfolding wc(4) using d(5) h0 by simp
    then have "unat (ncycled b') =
        (if hstate b' = 1 then sum_list (map (cycled k b') (readers sys)) else 0)"
      using sum_list_map_zero[OF cz] hb by simp
    then show ?thesis using ro ge by blast
  qed
  have "brdct_inv k sys'"
  proof (rule brdct_invI)
    show "unat (tail (shared sys')) < 2 ^ 32" using bd by (simp add: s' T' b_def)
    show "hstate (shared sys') = 1 \<longrightarrow> 2 ^ (k - 1) \<le> unat (tail (shared sys'))"
      using rest by (simp add: s' H_def)
    show "\<forall>c \<in> set (readers sys'). reader_ok k (shared sys') c" using rest by (simp add: s')
    show "unat (nreaders (shared sys')) = sum_list (map present (readers sys'))"
      using d(4) by (simp add: s' wc(3))
    show "unat (ncycled (shared sys')) =
        (if hstate (shared sys') = 1 then sum_list (map (cycled k (shared sys')) (readers sys')) else 0)"
      using rest by (simp add: s')
    show "writer_ok k (shared sys') (wslice sys')"
      by (simp add: s' writer_ok_def)
  qed
  moreover have "unat (tail (shared sys')) = unat (tail (shared sys)) + unat n"
    by (simp add: s' T' b_def)
  ultimately show ?thesis by simp
qed

lemma step_inv:
  assumes k1: "1 \<le> k" and k31: "k \<le> 31" and inv: "brdct_inv k sys"
    and st: "step k x sys = Some sys'"
    and bd: "unat (tail (shared sys)) + amount x < 2 ^ 32"
  shows "brdct_inv k sys' \<and> unat (tail (shared sys')) = unat (tail (shared sys)) + amount x"
proof (cases x)
  case Attach
  then show ?thesis using inv_attach[OF k1 k31 inv] st by (simp add: amount_def)
next
  case (Detach i)
  then show ?thesis using inv_detach[OF inv] st by (simp add: amount_def)
next
  case (ReaderSlice i)
  then show ?thesis using inv_reader_slice[OF inv] st by (simp add: amount_def)
next
  case (ReaderCommit i n)
  then show ?thesis using inv_reader_commit[OF inv] st by (simp add: amount_def)
next
  case WriterSlice
  then show ?thesis using inv_writer_slice[OF k1 k31 inv] st by (simp add: amount_def)
next
  case (WriterCommit n)
  then have "unat (tail (shared sys)) + unat n < 2 ^ 32" using bd by (simp add: amount_def)
  from inv_writer_commit[OF k1 inv _ this] WriterCommit st show ?thesis
    by (simp add: amount_def)
qed

lemma run_inv:
  assumes k1: "1 \<le> k" and k31: "k \<le> 31"
  shows "brdct_inv k sys \<Longrightarrow> run k xs sys = Some sys' \<Longrightarrow>
         unat (tail (shared sys)) + produced xs < 2 ^ 32 \<Longrightarrow>
         brdct_inv k sys' \<and> unat (tail (shared sys')) = unat (tail (shared sys)) + produced xs"
proof (induction xs arbitrary: sys)
  case Nil
  then show ?case by (simp add: produced_def)
next
  case (Cons x xs)
  obtain sys1 where s1: "step k x sys = Some sys1" and r1: "run k xs sys1 = Some sys'"
    using Cons.prems(2) by (auto split: option.splits)
  have p: "produced (x # xs) = amount x + produced xs" by (simp add: produced_def)
  have b1: "unat (tail (shared sys)) + amount x < 2 ^ 32" using Cons.prems(3) p by linarith
  note i1 = step_inv[OF k1 k31 Cons.prems(1) s1 b1]
  have b2: "unat (tail (shared sys1)) + produced xs < 2 ^ 32" using Cons.prems(3) p i1 by linarith
  from Cons.IH[OF conjunct1[OF i1] r1 b2] i1 p show ?case by linarith
qed

lemma inv_zero: "brdct_inv k system_zero"
  by (simp add: brdct_inv_def system_zero_def brdct_zero_def writer_ok_def)

lemma reader_distance:
  fixes T R H hs :: nat
  assumes "0 < H" and "T div H \<le> R div H + hs" and "hs \<le> 1" and "R \<le> T"
  shows "T - R < H + H"
proof -
  have "T < (T div H + 1) * H" using assms(1)
    by (metis Suc_eq_plus1 div_less_iff_less_mult lessI)
  also have "\<dots> \<le> (R div H + 2) * H"
    by (rule mult_le_mono1) (use assms(2,3) in linarith)
  also have "\<dots> = R div H * H + (H + H)" by (simp add: algebra_simps)
  also have "\<dots> \<le> R + (H + H)" by simp
  finally show ?thesis using assms(4) by linarith
qed

text \<open>
  No overwrite of live data, below \<open>2 ^ 32\<close> produced elements (the part of claim C1
  that the code keeps).  For \<open>1 \<le> k \<le> 31\<close>, after every contract-respecting sequence
  of operations from the zero state in which the writer has committed fewer than
  \<open>2 ^ 32\<close> elements in all, \<open>tail\<close> is the number of elements produced, and every
  attached reader is at or before \<open>tail\<close> and less than \<open>C = 2 ^ k\<close> behind it, whether
  the distance is taken on the numbers, as the code computes it (modulo \<open>2 ^ 64\<close>) or
  modulo \<open>2 ^ 32\<close>.
\<close>

theorem no_overwrite_below_2_32:
  assumes "1 \<le> k" and "k \<le> 31"
    and "run k xs system_zero = Some sys" and "produced xs < 2 ^ 32"
    and "reader_at sys i = Some (r, p)"
  shows "unat (tail (shared sys)) = produced xs
       \<and> unat r \<le> unat (tail (shared sys))
       \<and> unat (tail (shared sys)) - unat r < 2 ^ k
       \<and> unat ((ucast (tail (shared sys)) :: brdct_t) - ucast r) < 2 ^ k
       \<and> unat ((ucast (tail (shared sys)) :: Reader) - r) < 2 ^ k"
proof -
  define b where "b = shared sys"
  define H :: nat where "H = 2 ^ (k - 1)"
  have z: "unat (tail (shared system_zero)) = 0" by (simp add: system_zero_def brdct_zero_def)
  have "unat (tail (shared system_zero)) + produced xs < 2 ^ 32" using assms(4) z by simp
  from run_inv[OF assms(1,2) inv_zero assms(3) this]
  have inv: "brdct_inv k sys" and T: "unat (tail b) = produced xs" using z by (simp_all add: b_def)
  note d = brdct_invD[OF inv, folded b_def H_def]
  have "reader_ok k b (Some (r, p))" using d(3) reader_atD(3)[OF assms(5)] by blast
  then have A: "unat (tail b) div H \<le> unat r div H + unat (hstate b)"
    and B: "unat r \<le> unat (tail b)"
    unfolding reader_ok_def option.case prod.case H_def by blast+
  have Hp: "0 < H" by (simp add: H_def)
  have hs: "unat (hstate b) \<le> 1" by (simp add: unat_hstate)
  have "unat (tail b) - unat r < H + H" by (rule reader_distance[OF Hp A hs B])
  then have D: "unat (tail b) - unat r < 2 ^ k"
    using pow2_double[OF assms(1)] by (simp add: H_def)
  have t64: "unat (ucast (tail b) :: 64 word) = unat (tail b)" by (simp add: unat_ucast_up)
  have r64: "unat (ucast r :: 64 word) = unat r" by (simp add: unat_ucast_up)
  have "(ucast r :: 64 word) \<le> ucast (tail b)" unfolding word_le_nat_alt t64 r64 by (rule B)
  then have D64: "unat ((ucast (tail b) :: 64 word) - ucast r) = unat (tail b) - unat r"
    by (simp add: unat_sub t64 r64)
  have t32: "unat (ucast (tail b) :: 32 word) = unat (tail b)"
    using d(1) by (simp add: unat_ucast_mod)
  have "r \<le> ucast (tail b)" unfolding word_le_nat_alt t32 by (rule B)
  then have D32: "unat ((ucast (tail b) :: 32 word) - r) = unat (tail b) - unat r"
    by (simp add: unat_sub t32)
  show ?thesis unfolding b_def[symmetric] D64 D32 using T B D by blast
qed

text \<open>
  Census consistency, below \<open>2 ^ 32\<close> produced elements (the part of claim C2 that
  the code keeps).  Under the same hypotheses the state word satisfies
  \<open>ncycled \<le> nreaders\<close>, and \<open>ncycled = 0\<close> whenever \<open>hstate = 0\<close>.
\<close>

theorem census_below_2_32:
  assumes "1 \<le> k" and "k \<le> 31"
    and "run k xs system_zero = Some sys" and "produced xs < 2 ^ 32"
  shows "ncycled (shared sys) \<le> nreaders (shared sys)
       \<and> (hstate (shared sys) = 0 \<longrightarrow> ncycled (shared sys) = 0)"
proof -
  define b where "b = shared sys"
  have z: "unat (tail (shared system_zero)) = 0" by (simp add: system_zero_def brdct_zero_def)
  have "unat (tail (shared system_zero)) + produced xs < 2 ^ 32" using assms(4) z by simp
  from run_inv[OF assms(1,2) inv_zero assms(3) this]
  have inv: "brdct_inv k sys" by simp
  note d = brdct_invD[OF inv, folded b_def]
  have "sum_list (map (cycled k b) (readers sys)) \<le> sum_list (map present (readers sys))"
    by (rule sum_list_map_mono) (rule cycled_le_present)
  then have "unat (ncycled b) \<le> unat (nreaders b)" using d(4) d(5) by simp
  then have 1: "ncycled b \<le> nreaders b" by (simp add: word_le_nat_alt)
  have 2: "ncycled b = 0" if "hstate b = 0"
  proof -
    have "unat (ncycled b) = 0" using d(5) that by simp
    then show ?thesis by (simp add: unat_eq_0)
  qed
  show ?thesis unfolding b_def[symmetric] using 1 2 by blast
qed


theorem no_overwrite_below_2_32_witness:
  "(1::nat) \<le> 3 \<and> (3::nat) \<le> 31
   \<and> run 3 [Attach, WriterSlice, WriterCommit 7, ReaderSlice 0, ReaderCommit 0 5] system_zero =
       Some \<lparr>shared = \<lparr>tail = 7, nreaders = 1, ncycled = 1, hstate = 1\<rparr>,
             readers = [Some (5, None)], wslice = None\<rparr>
   \<and> produced [Attach, WriterSlice, WriterCommit 7, ReaderSlice 0, ReaderCommit 0 5] < 2 ^ 32
   \<and> reader_at \<lparr>shared = \<lparr>tail = 7, nreaders = 1, ncycled = 1, hstate = 1\<rparr>,
             readers = [Some (5, None)], wslice = None\<rparr> 0 = Some (5, None)
   \<and> unat ((ucast (7 :: 33 word) :: brdct_t) - ucast (5 :: Reader)) < 2 ^ 3"
  using no_overwrite_below_2_32[of 3 "[Attach, WriterSlice, WriterCommit 7, ReaderSlice 0, ReaderCommit 0 5]"
      "\<lparr>shared = \<lparr>tail = 7, nreaders = 1, ncycled = 1, hstate = 1\<rparr>,
             readers = [Some (5, None)], wslice = None\<rparr>" 0 5 None]
  by (simp add: system_zero_def brdct_zero_def reader_at_def consume_def produced_def amount_def
      brdct_attach_reader_def brdct_writer_slice_def brdct_writer_commit_def
      brdct_reader_slice_def brdct_reader_commit_def nreaders_limit_def Let_def)

theorem census_below_2_32_witness:
  "(1::nat) \<le> 3 \<and> (3::nat) \<le> 31
   \<and> run 3 [Attach, Attach, WriterSlice, WriterCommit 7, ReaderSlice 0, ReaderCommit 0 5] system_zero =
       Some \<lparr>shared = \<lparr>tail = 7, nreaders = 2, ncycled = 1, hstate = 1\<rparr>,
             readers = [Some (5, None), Some (0, None)], wslice = None\<rparr>
   \<and> produced [Attach, Attach, WriterSlice, WriterCommit 7, ReaderSlice 0, ReaderCommit 0 5] < 2 ^ 32
   \<and> ncycled \<lparr>tail = 7, nreaders = 2, ncycled = 1, hstate = 1\<rparr>
       \<le> nreaders \<lparr>tail = 7, nreaders = 2, ncycled = 1, hstate = 1\<rparr>"
  using census_below_2_32[of 3 "[Attach, Attach, WriterSlice, WriterCommit 7, ReaderSlice 0, ReaderCommit 0 5]"
      "\<lparr>shared = \<lparr>tail = 7, nreaders = 2, ncycled = 1, hstate = 1\<rparr>,
             readers = [Some (5, None), Some (0, None)], wslice = None\<rparr>"]
  by (simp add: system_zero_def brdct_zero_def reader_at_def consume_def produced_def amount_def
      brdct_attach_reader_def brdct_writer_slice_def brdct_writer_commit_def
      brdct_reader_slice_def brdct_reader_commit_def nreaders_limit_def Let_def)

text \<open>
  The writer is confined while \<open>hstate = 1\<close> (the one-step part of claim C1).  For
  \<open>1 \<le> k \<le> 33\<close>: if \<^verbatim>\<open>brdct_writer_slice\<close> leaves \<open>hstate = 1\<close>, the slice it returns
  ends exactly one element before the next half-block boundary, and committing any
  \<open>n \<le> len\<close> elements of it, on a state word whose \<open>tail\<close> and \<open>hstate\<close> are still
  those of the slice (readers may have changed \<open>nreaders\<close> and \<open>ncycled\<close> in between),
  leaves \<open>tail >> (k - 1)\<close> and \<open>hstate\<close> unchanged.
\<close>

theorem writer_stays_in_half_block:
  assumes k1: "1 \<le> k" and k33: "k \<le> 33"
    and h: "hstate (fst (brdct_writer_slice brc k)) = 1"
    and n: "n \<le> len (snd (brdct_writer_slice brc k))"
    and t: "tail b = tail (fst (brdct_writer_slice brc k))"
    and hb: "hstate b = hstate (fst (brdct_writer_slice brc k))"
  shows "drop_bit (k - 1) (tail (brdct_writer_commit b k (consume n (snd (brdct_writer_slice brc k)))))
           = drop_bit (k - 1) (tail b)
       \<and> hstate (brdct_writer_commit b k (consume n (snd (brdct_writer_slice brc k)))) = 1
       \<and> unat (tail (brdct_writer_commit b k (consume n (snd (brdct_writer_slice brc k)))))
           = unat (tail b) + unat n
       \<and> unat (tail b) mod 2 ^ (k - 1) + unat (len (snd (brdct_writer_slice brc k)))
           = 2 ^ (k - 1) - 1"
proof -
  define s where "s = snd (brdct_writer_slice brc k)"
  define H :: nat where "H = 2 ^ (k - 1)"
  define M :: nat where "M = 2 ^ (33 - (k - 1))"
  have k63: "k \<le> 63" using k33 by simp
  note w = writer_slice_bounds[OF k1 k63, of brc, folded s_def t hb]
  have Hp: "0 < H" by (simp add: H_def)
  have HH: "H + H = 2 ^ k" unfolding H_def by (rule pow2_double[OF k1])
  have hs1: "unat (hstate b) = 1" using h hb by simp
  have m: "unat (tail b) mod H < H" using Hp by simp
  have l: "unat (len s) = H - 1 - unat (tail b) mod H"
    using w(1) hs1 HH unfolding H_def[symmetric] by simp
  have N: "unat n \<le> unat (len s)" using n by (simp add: word_le_nat_alt s_def)
  have low: "unat (tail b) mod H + unat n < H" using l N m by linarith
  have HM: "H * M = 2 ^ 33" using k33 unfolding H_def M_def
    by (simp flip: power_add)
  have "unat (tail b) < H * M" unfolding HM using unsigned_less[of "tail b", where 'a = nat] by simp
  then have "unat (tail b) + unat n < H * M" using low by (rule blk_lt)
  then have bd: "unat (tail b) + unat n < 2 ^ 33" unfolding HM .
  note wc = writer_commit_nat[OF w(2) bd, of k, folded H_def]
  have dv: "(unat (tail b) + unat n) div H = unat (tail b) div H"
    using div_add_low[of "unat (tail b)" "unat n" H] low by simp
  have 1: "drop_bit (k - 1) (tail (brdct_writer_commit b k (consume n s))) = drop_bit (k - 1) (tail b)"
    unfolding drop_bit_eq_div_iff wc(1) H_def[symmetric] by (rule dv)
  have 2: "hstate (brdct_writer_commit b k (consume n s)) = 1"
    unfolding wc(2) dv using h hb by simp
  have 3: "unat (tail b) mod H + unat (len s) = H - 1" using l m by linarith
  show ?thesis using 1 2 3 wc(1) unfolding s_def H_def by blast
qed


theorem writer_stays_in_half_block_witness:
  "(1::nat) \<le> 3 \<and> (3::nat) \<le> 33
   \<and> brdct_writer_slice \<lparr>tail = 5, nreaders = 1, ncycled = 0, hstate = 1\<rparr> 3
       = (\<lparr>tail = 5, nreaders = 1, ncycled = 0, hstate = 1\<rparr>,
          \<lparr>idx0 = 5, idx1 = 0, cnt0 = 2, cnt1 = 0, len = 2\<rparr>)
   \<and> (2 :: size_t) \<le> 2
   \<and> brdct_writer_commit \<lparr>tail = 5, nreaders = 2, ncycled = 1, hstate = 1\<rparr> 3
         (consume 2 \<lparr>idx0 = 5, idx1 = 0, cnt0 = 2, cnt1 = 0, len = 2\<rparr>)
       = \<lparr>tail = 7, nreaders = 2, ncycled = 1, hstate = 1\<rparr>
   \<and> drop_bit (3 - 1) (7 :: 33 word) = drop_bit (3 - 1) (5 :: 33 word)"
  using writer_stays_in_half_block[of 3 "\<lparr>tail = 5, nreaders = 1, ncycled = 0, hstate = 1\<rparr>" 2
      "\<lparr>tail = 5, nreaders = 2, ncycled = 1, hstate = 1\<rparr>"]
  by (simp add: brdct_writer_slice_def brdct_writer_commit_def consume_def Let_def)

end
